theory Spec2Isabelle
  imports Main
begin

section \<open>Central free lists of the runtime allocator (mcentral.c)\<close>

text \<open>
  A shallow embedding of \<^verbatim>\<open>src/pkg/runtime/mcentral.c\<close>. One central free list
  (\<^verbatim>\<open>MCentral\<close>) is modelled together with the part of the page heap it talks to.
  Pointers are natural numbers, \<open>0\<close> is \<^verbatim>\<open>nil\<close>. The memory maps the address of an
  object to its first word, the \<^verbatim>\<open>next\<close> field of the \<^verbatim>\<open>MLink\<close> overlaid on it.
  An \<^verbatim>\<open>MSpan*\<close> is a span identifier; the span structures live in a store of their own.
  The lock of the central list is not modelled: every function is the sequential
  behaviour of its body. The bitmap updates of the collector
  (\<^verbatim>\<open>markspan\<close>, \<^verbatim>\<open>unmarkspan\<close>) touch no state of this file and are left out.
\<close>

type_synonym addr = nat
type_synonym spanid = nat

text \<open>
  The fields of \<^verbatim>\<open>MSpan\<close> and \<^verbatim>\<open>MCentral\<close> that mcentral.c reads or writes.
  Their declarations are in malloc.h, which is not part of the sources at hand: the
  counters are unbounded (\<open>ref\<close> counts objects, \<open>nfree\<close> is an integer so that a
  subtraction below zero stays visible).
\<close>

record MSpan =
  start :: nat
  npages :: nat
  freelist :: addr
  ref :: nat
  limit :: addr

record MCentral =
  sizeclass :: nat
  nonempty :: "spanid list"
  empty :: "spanid list"
  nfree :: int

text \<open>
  Modelled from the spec: the size-class geometry (\<^verbatim>\<open>class_to_size\<close>,
  \<^verbatim>\<open>class_to_allocnpages\<close>, both tables of msize.c) and the page shift (a macro of
  malloc.h) are external, read-only configuration; they are parameters of the model.
\<close>

record geometry =
  class_to_size :: "nat \<Rightarrow> nat"
  class_to_allocnpages :: "nat \<Rightarrow> nat"
  PageShift :: nat

text \<open>
  The state: the central list, the span structures, the memory, and the page heap.
  Modelled from the spec: the page heap (mheap.c is not part of the sources) keeps the
  spans it has granted and not yet got back (\<open>inuse\<close>); \<open>freespans\<close> lists the spans
  (structure and first page) it will grant on the coming requests, and it is exhausted
  when that list is empty.
\<close>

record state =
  central :: MCentral
  span :: "spanid \<Rightarrow> MSpan"
  mem :: "addr \<Rightarrow> addr"
  inuse :: "spanid list"
  freespans :: "(spanid \<times> nat) list"

datatype error = InvalidFree | NilDeref | DivideByZero

text \<open>A fatal outcome carries the state in which the program stopped.\<close>

type_synonym 'a result = "(error \<times> state) + 'a"

subsection \<open>Size-class geometry\<close>

text \<open>The value an \<^verbatim>\<open>int32\<close> holds after a computation on unbounded integers.\<close>

definition int32 :: "int \<Rightarrow> int" where
  "int32 x = (x + 2 ^ 31) mod 2 ^ 32 - 2 ^ 31"

text \<open>C division truncates towards zero.\<close>

definition cdiv :: "int \<Rightarrow> int \<Rightarrow> int" where
  "cdiv a b = sgn a * sgn b * (\<bar>a\<bar> div \<bar>b\<bar>)"

text \<open>
  \<^verbatim>\<open>runtime.MGetSizeClassInfo(sizeclass, &size, &npages, &nobj)\<close>: the three results,
  or nothing where the division by a zero size traps.
\<close>

definition MGetSizeClassInfo :: "geometry \<Rightarrow> nat \<Rightarrow> (nat \<times> nat \<times> int) option" where
  "MGetSizeClassInfo G sc =
     (let npgs = class_to_allocnpages G sc;
          sz = class_to_size G sc
      in if sz = 0 then None
         else Some (sz, npgs, cdiv (int32 (int npgs * 2 ^ PageShift G)) (int sz)))"

subsection \<open>Span lists and the page heap\<close>

text \<open>
  Modelled from the spec: a span list is an ordered collection of spans. The list
  primitives are in mheap.c; \<^verbatim>\<open>MSpanList_Insert\<close> puts a span in front,
  \<^verbatim>\<open>MSpanList_Remove\<close> takes it out of whichever list it is in.
\<close>

definition MSpanList_IsEmpty :: "spanid list \<Rightarrow> bool" where
  "MSpanList_IsEmpty l = (l = [])"

definition MSpanList_Insert :: "spanid list \<Rightarrow> spanid \<Rightarrow> spanid list" where
  "MSpanList_Insert l s = s # l"

definition MSpanList_Remove :: "MCentral \<Rightarrow> spanid \<Rightarrow> MCentral" where
  "MSpanList_Remove c s =
     c\<lparr>nonempty := removeAll s (nonempty c), empty := removeAll s (empty c)\<rparr>"

text \<open>The bytes of a span: from \<^verbatim>\<open>s->start << PageShift\<close>, \<^verbatim>\<open>s->npages << PageShift\<close> many.\<close>

definition base :: "geometry \<Rightarrow> MSpan \<Rightarrow> addr" where
  "base G s = start s * 2 ^ PageShift G"

definition bytes :: "geometry \<Rightarrow> MSpan \<Rightarrow> nat" where
  "bytes G s = npages s * 2 ^ PageShift G"

definition inspan :: "geometry \<Rightarrow> MSpan \<Rightarrow> addr \<Rightarrow> bool" where
  "inspan G s v = (base G s \<le> v \<and> v < base G s + bytes G s)"

text \<open>
  Modelled from the spec: \<^verbatim>\<open>MHeap_Lookup\<close> maps an address to the span in use that
  holds it, if any; \<^verbatim>\<open>MHeap_Alloc\<close> grants a fresh span (no object allocated, no free
  list) of the requested page count or reports exhaustion; \<^verbatim>\<open>MHeap_Free\<close> takes a span
  back.
\<close>

definition MHeap_Lookup :: "geometry \<Rightarrow> state \<Rightarrow> addr \<Rightarrow> spanid option" where
  "MHeap_Lookup G st v = find (\<lambda>s. inspan G (span st s) v) (inuse st)"

definition MHeap_Alloc :: "state \<Rightarrow> nat \<Rightarrow> nat \<Rightarrow> (spanid \<times> state) option" where
  "MHeap_Alloc st npgs sc =
     (case freespans st of
        [] \<Rightarrow> None
      | (s, p) # rest \<Rightarrow>
          Some (s, st\<lparr>span := (span st)(s := \<lparr>start = p, npages = npgs, freelist = 0,
                                               ref = 0, limit = 0\<rparr>),
                      inuse := s # inuse st,
                      freespans := rest\<rparr>))"

definition MHeap_Free :: "state \<Rightarrow> spanid \<Rightarrow> state" where
  "MHeap_Free st s = st\<lparr>inuse := removeAll s (inuse st)\<rparr>"

subsection \<open>The central free list\<close>

definition MCentral_Init :: "MCentral \<Rightarrow> nat \<Rightarrow> MCentral" where
  "MCentral_Init c sc = c\<lparr>sizeclass := sc, nonempty := [], empty := []\<rparr>"

text \<open>
  \<^verbatim>\<open>MCentral_Alloc\<close>: one object from the first span of the nonempty list, \<^verbatim>\<open>nil\<close>
  when that list is empty. Reading \<^verbatim>\<open>v->next\<close> of a \<^verbatim>\<open>nil\<close> free list is a fault.
\<close>

definition MCentral_Alloc :: "state \<Rightarrow> (addr \<times> state) result" where
  "MCentral_Alloc st =
     (let c = central st in
      if MSpanList_IsEmpty (nonempty c) then Inr (0, st)
      else
        let s = hd (nonempty c);
            sp = (span st s)\<lparr>ref := ref (span st s) + 1\<rparr>;
            st1 = st\<lparr>span := (span st)(s := sp)\<rparr>;
            v = freelist sp
        in if v = 0 then Inl (NilDeref, st1)
           else
             let sp2 = sp\<lparr>freelist := mem st v\<rparr>;
                 st2 = st1\<lparr>span := (span st)(s := sp2)\<rparr>
             in if freelist sp2 = 0
                then Inr (v, st2\<lparr>central :=
                           (MSpanList_Remove c s)\<lparr>empty :=
                              MSpanList_Insert (empty (MSpanList_Remove c s)) s\<rparr>\<rparr>)
                else Inr (v, st2))"

text \<open>
  The carving loop of \<^verbatim>\<open>MCentral_Grow\<close>. \<^verbatim>\<open>tailp\<close> points at the free-list head of the
  span or at the \<^verbatim>\<open>next\<close> field of the block carved last; the loop state is the head
  and the memory.
\<close>

datatype tail = Head | Link addr

fun store_tail :: "tail \<Rightarrow> addr \<Rightarrow> addr \<times> (addr \<Rightarrow> addr) \<Rightarrow> addr \<times> (addr \<Rightarrow> addr)" where
  "store_tail Head v (h, m) = (v, m)"
| "store_tail (Link a) v (h, m) = (h, m(a := v))"

fun carve :: "nat \<Rightarrow> nat \<Rightarrow> tail \<Rightarrow> addr \<Rightarrow> addr \<times> (addr \<Rightarrow> addr)
                \<Rightarrow> tail \<times> addr \<times> (addr \<Rightarrow> addr)" where
  "carve 0 sz tailp p hm = (tailp, hm)"
| "carve (Suc k) sz tailp p hm = carve k sz (Link p) (p + sz) (store_tail tailp p hm)"

text \<open>
  \<^verbatim>\<open>MCentral_Grow\<close>: fetch a span from the heap and carve it. A span at page 0 would
  have \<^verbatim>\<open>nil\<close> as its first block, and the second store of the carving would go
  through it: that is the fault of the model.
\<close>

definition MCentral_Grow :: "geometry \<Rightarrow> state \<Rightarrow> (bool \<times> state) result" where
  "MCentral_Grow G st =
     (case MGetSizeClassInfo G (sizeclass (central st)) of
        None \<Rightarrow> Inl (DivideByZero, st)
      | Some (sz, npgs, n) \<Rightarrow>
          (case MHeap_Alloc st npgs (sizeclass (central st)) of
             None \<Rightarrow> Inr (False, st)
           | Some (s, st1) \<Rightarrow>
               let p = base G (span st1 s) in
               if p = 0 \<and> 0 < n then Inl (NilDeref, st1)
               else
                 let (tailp, hm) = carve (nat n) sz Head p (freelist (span st1 s), mem st1);
                     (h, m) = store_tail tailp 0 hm;
                     sp = (span st1 s)\<lparr>freelist := h, limit := p + sz * nat n\<rparr>;
                     c = central st1
                 in Inr (True, st1\<lparr>span := (span st1)(s := sp),
                                   mem := m,
                                   central := c\<lparr>nfree := nfree c + n,
                                                nonempty := MSpanList_Insert (nonempty c) s\<rparr>\<rparr>)))"

text \<open>The loop of \<^verbatim>\<open>MCentral_AllocList\<close>; it returns \<open>i\<close>, the state and \<^verbatim>\<open>last\<close>.\<close>

function AllocList_loop :: "state \<Rightarrow> int \<Rightarrow> int \<Rightarrow> addr \<Rightarrow> (int \<times> state \<times> addr) result" where
  "AllocList_loop st n i lastp =
     (if i < n then
        (case MCentral_Alloc st of
           Inl e \<Rightarrow> Inl e
         | Inr (v, st') \<Rightarrow>
             if v = 0 then Inr (i, st', lastp)
             else AllocList_loop (st'\<lparr>mem := (mem st')(lastp := v)\<rparr>) n (i + 1) v)
      else Inr (i, st, lastp))"
  by pat_completeness auto
termination
  by (relation "measure (\<lambda>(st, n, i, lastp). nat (n - i))") auto

declare AllocList_loop.simps [simp del]

text \<open>Lines 45 to 51: replenish the central list if it is empty.\<close>

definition replenish :: "geometry \<Rightarrow> state \<Rightarrow> (bool \<times> state) result" where
  "replenish G st =
     (if MSpanList_IsEmpty (nonempty (central st)) then MCentral_Grow G st
      else Inr (True, st))"

text \<open>
  \<^verbatim>\<open>runtime.MCentral_AllocList(c, n, &first)\<close>: the count returned, \<^verbatim>\<open>*pfirst\<close> and
  the state. Were the first \<^verbatim>\<open>MCentral_Alloc\<close> to return \<^verbatim>\<open>nil\<close>, the store
  \<^verbatim>\<open>last->next = nil\<close> would go through \<^verbatim>\<open>nil\<close>.
\<close>

definition MCentral_AllocList :: "geometry \<Rightarrow> state \<Rightarrow> int \<Rightarrow> (int \<times> addr \<times> state) result" where
  "MCentral_AllocList G st n =
     (case replenish G st of
        Inl e \<Rightarrow> Inl e
      | Inr (False, st0) \<Rightarrow> Inr (0, 0, st0)
      | Inr (True, st1) \<Rightarrow>
          (case MCentral_Alloc st1 of
             Inl e \<Rightarrow> Inl e
           | Inr (first, st2) \<Rightarrow>
               if first = 0 then Inl (NilDeref, st2)
               else
                 (case AllocList_loop st2 n 1 first of
                    Inl e \<Rightarrow> Inl e
                  | Inr (i, st3, lastp) \<Rightarrow>
                      let c = central st3
                      in Inr (i, first, st3\<lparr>mem := (mem st3)(lastp := 0),
                                            central := c\<lparr>nfree := nfree c - i\<rparr>\<rparr>))))"

text \<open>
  \<^verbatim>\<open>MCentral_Free\<close>: give one object back. The division of line 143 traps on a zero
  size; a store through \<^verbatim>\<open>nil\<close> is a fault.
\<close>

definition MCentral_Free :: "geometry \<Rightarrow> state \<Rightarrow> addr \<Rightarrow> state result" where
  "MCentral_Free G st v =
     (case MHeap_Lookup G st v of
        None \<Rightarrow> Inl (InvalidFree, st)
      | Some s \<Rightarrow>
          if ref (span st s) = 0 then Inl (InvalidFree, st)
          else
            let c1 = (if freelist (span st s) = 0
                      then (MSpanList_Remove (central st) s)\<lparr>nonempty :=
                              MSpanList_Insert (nonempty (MSpanList_Remove (central st) s)) s\<rparr>
                      else central st);
                st1 = st\<lparr>central := c1\<rparr>
            in if v = 0 then Inl (NilDeref, st1)
               else
                 let sp2 = (span st s)\<lparr>freelist := v, ref := ref (span st s) - 1\<rparr>;
                     st2 = st1\<lparr>mem := (mem st)(v := freelist (span st s)),
                               span := (span st)(s := sp2),
                               central := c1\<lparr>nfree := nfree c1 + 1\<rparr>\<rparr>
                 in if ref sp2 = 0 then
                      let sz = class_to_size G (sizeclass (central st2));
                          c3 = MSpanList_Remove (central st2) s;
                          st3 = st2\<lparr>central := c3,
                                    mem := (mem st2)(base G sp2 := 1),
                                    span := (span st2)(s := sp2\<lparr>freelist := 0\<rparr>)\<rparr>
                      in if sz = 0 then Inl (DivideByZero, st3)
                         else Inr (MHeap_Free
                                (st3\<lparr>central := c3\<lparr>nfree := nfree c3 - int (bytes G sp2 div sz)\<rparr>\<rparr>)
                                s)
                    else Inr st2)"

text \<open>
  Every successful \<^verbatim>\<open>MCentral_Free\<close> takes one reference away from a span in use:
  the references of the spans in use bound the number of objects a batch can free.
\<close>

definition refs_inuse :: "state \<Rightarrow> nat" where
  "refs_inuse st = sum_list (map (\<lambda>s. ref (span st s)) (inuse st))"

lemma sum_list_map_less:
  "s \<in> set xs \<Longrightarrow> f s < g s \<Longrightarrow> (\<And>x. f x \<le> g x) \<Longrightarrow>
   sum_list (map f xs) < (sum_list (map g xs) :: nat)"
proof (induction xs)
  case Nil
  then show ?case by simp
next
  case (Cons a xs)
  have le: "sum_list (map f xs) \<le> sum_list (map g xs)"
    by (rule sum_list_mono) (simp add: Cons.prems(3))
  show ?case
  proof (cases "a = s")
    case True
    with le Cons.prems(2) show ?thesis by simp
  next
    case False
    with Cons.prems have "s \<in> set xs" by simp
    from Cons.IH [OF this Cons.prems(2) Cons.prems(3)] Cons.prems(3) [of a]
    show ?thesis by simp
  qed
qed

lemma sum_list_map_removeAll_le:
  "sum_list (map f (removeAll s xs)) \<le> (sum_list (map f xs) :: nat)"
  by (induction xs) auto

lemma find_Some_set: "find P xs = Some x \<Longrightarrow> x \<in> set xs \<and> P x"
  by (induction xs) (auto split: if_splits)

lemma MCentral_Free_refs_inuse:
  assumes "MCentral_Free G st v = Inr st'"
  shows "refs_inuse st' < refs_inuse st"
proof -
  from assms obtain s where look: "MHeap_Lookup G st v = Some s"
    by (auto simp: MCentral_Free_def split: option.splits)
  then have s_in: "s \<in> set (inuse st)"
    by (auto simp: MHeap_Lookup_def dest: find_Some_set)
  from assms look have pos: "0 < ref (span st s)"
    by (auto simp: MCentral_Free_def split: if_splits)
  define f where "f = (\<lambda>t. ref (((span st)(s := (span st s)\<lparr>freelist := v,
                        ref := ref (span st s) - 1\<rparr>)) t))"
  define f0 where "f0 = (\<lambda>t. ref (((span st)(s := (span st s)\<lparr>freelist := 0,
                        ref := ref (span st s) - 1\<rparr>)) t))"
  have f_less: "sum_list (map f (inuse st)) < refs_inuse st"
    unfolding refs_inuse_def
    by (rule sum_list_map_less [OF s_in]) (use pos in \<open>auto simp: f_def\<close>)
  have f0_less: "sum_list (map f0 (removeAll s (inuse st))) < refs_inuse st"
  proof -
    have "sum_list (map f0 (removeAll s (inuse st))) \<le> sum_list (map f0 (inuse st))"
      by (rule sum_list_map_removeAll_le)
    also have "\<dots> < refs_inuse st"
      unfolding refs_inuse_def
      by (rule sum_list_map_less [OF s_in]) (use pos in \<open>auto simp: f0_def\<close>)
    finally show ?thesis .
  qed
  from assms look pos consider
      (keep) "inuse st' = inuse st" "(\<lambda>t. ref (span st' t)) = f"
    | (release) "inuse st' = removeAll s (inuse st)" "(\<lambda>t. ref (span st' t)) = f0"
    by (auto simp: MCentral_Free_def Let_def MHeap_Free_def f_def f0_def fun_eq_iff
             split: if_splits)
  then show ?thesis
  proof cases
    case keep
    with f_less show ?thesis by (simp add: refs_inuse_def)
  next
    case release
    with f0_less show ?thesis by (simp add: refs_inuse_def)
  qed
qed

text \<open>The loop of \<^verbatim>\<open>MCentral_FreeList\<close>: \<^verbatim>\<open>next\<close> is read before the object is freed.\<close>

function FreeList_loop :: "geometry \<Rightarrow> state \<Rightarrow> addr \<Rightarrow> state result" where
  "FreeList_loop G st v =
     (if v = 0 then Inr st
      else
        let nxt = mem st v in
        (case MCentral_Free G st v of
           Inl e \<Rightarrow> Inl e
         | Inr st' \<Rightarrow> FreeList_loop G st' nxt))"
  by pat_completeness auto
termination
  by (relation "measure (\<lambda>(G, st, v). refs_inuse st)")
     (auto dest: MCentral_Free_refs_inuse)

declare FreeList_loop.simps [simp del]

text \<open>\<^verbatim>\<open>runtime.MCentral_FreeList(c, n, start)\<close>; \<^verbatim>\<open>n\<close> is not used.\<close>

definition MCentral_FreeList :: "geometry \<Rightarrow> state \<Rightarrow> int \<Rightarrow> addr \<Rightarrow> state result" where
  "MCentral_FreeList G st n v = FreeList_loop G st v"

section \<open>Invariants\<close>

text \<open>The spans of the central list: those reachable from its two lists.\<close>

definition owned :: "state \<Rightarrow> spanid list" where
  "owned st = nonempty (central st) @ empty (central st)"

text \<open>
  List membership, in the words of the specification: a span of the central list is in
  the nonempty list iff its free list is not \<^verbatim>\<open>nil\<close>, and in the empty list iff its
  free list is \<^verbatim>\<open>nil\<close> and it has an object allocated.
\<close>

definition list_inv :: "state \<Rightarrow> bool" where
  "list_inv st =
     (\<forall>s \<in> set (owned st).
        (s \<in> set (nonempty (central st)) \<longleftrightarrow> freelist (span st s) \<noteq> 0) \<and>
        (s \<in> set (empty (central st)) \<longleftrightarrow>
           freelist (span st s) = 0 \<and> 0 < ref (span st s)))"

text \<open>
  What the central list expects of its collaborators. The heap grants fresh spans: a
  span it will grant is neither in use nor in a list of the central, it is granted
  once, and it does not start at page 0. The geometry of the size class is sound: an
  object has a size, a span holds at least one object, and the byte count of a span
  fits an \<^verbatim>\<open>int32\<close>.
\<close>

definition heap_fresh :: "state \<Rightarrow> bool" where
  "heap_fresh st =
     (distinct (map fst (freespans st)) \<and>
      (\<forall>(s, p) \<in> set (freespans st).
         s \<notin> set (inuse st) \<and> s \<notin> set (owned st) \<and> 0 < p))"

definition geom_ok :: "geometry \<Rightarrow> nat \<Rightarrow> bool" where
  "geom_ok G sc =
     (0 < class_to_size G sc \<and>
      class_to_size G sc \<le> class_to_allocnpages G sc * 2 ^ PageShift G \<and>
      class_to_allocnpages G sc * 2 ^ PageShift G < 2 ^ 31)"

definition membership_inv :: "geometry \<Rightarrow> state \<Rightarrow> bool" where
  "membership_inv G st =
     (list_inv st \<and> heap_fresh st \<and> geom_ok G (sizeclass (central st)))"

subsection \<open>Free lists in memory\<close>

text \<open>
  \<open>chain m p xs\<close>: following the \<^verbatim>\<open>next\<close> fields from \<open>p\<close> visits the objects \<open>xs\<close>
  and then reaches \<^verbatim>\<open>nil\<close>. \<open>walk m k p\<close> follows at most \<open>k\<close> links from \<open>p\<close>.
\<close>

fun chain :: "(addr \<Rightarrow> addr) \<Rightarrow> addr \<Rightarrow> addr list \<Rightarrow> bool" where
  "chain m p [] = (p = 0)"
| "chain m p (x # xs) = (p = x \<and> x \<noteq> 0 \<and> chain m (m x) xs)"

fun walk :: "(addr \<Rightarrow> addr) \<Rightarrow> nat \<Rightarrow> addr \<Rightarrow> addr list" where
  "walk m 0 p = []"
| "walk m (Suc k) p = (if p = 0 then [] else p # walk m k (m p))"

text \<open>
  The blocks of a span: \<open>nobj\<close> is the quotient line 143 computes from the span,
  \<open>slots\<close> are the addresses the carving loop visits.
\<close>

fun slots_from :: "addr \<Rightarrow> nat \<Rightarrow> nat \<Rightarrow> addr list" where
  "slots_from p sz 0 = []"
| "slots_from p sz (Suc k) = p # slots_from (p + sz) sz k"

definition nobj :: "geometry \<Rightarrow> state \<Rightarrow> spanid \<Rightarrow> nat" where
  "nobj G st s = bytes G (span st s) div class_to_size G (sizeclass (central st))"

definition slots :: "geometry \<Rightarrow> state \<Rightarrow> spanid \<Rightarrow> addr list" where
  "slots G st s =
     slots_from (base G (span st s)) (class_to_size G (sizeclass (central st))) (nobj G st s)"

text \<open>The free list of a span, read from memory, and the free objects of the central.\<close>

definition flist :: "geometry \<Rightarrow> state \<Rightarrow> spanid \<Rightarrow> addr list" where
  "flist G st s = walk (mem st) (nobj G st s) (freelist (span st s))"

definition avail :: "geometry \<Rightarrow> state \<Rightarrow> addr list" where
  "avail G st = concat (map (flist G st) (nonempty (central st)))"

definition allfree :: "geometry \<Rightarrow> state \<Rightarrow> addr list" where
  "allfree G st = concat (map (flist G st) (owned st))"

text \<open>
  A span of the central is well formed: its free list ends in \<^verbatim>\<open>nil\<close> and holds
  blocks of the span, every block is on the free list or counted by \<open>ref\<close>, the span
  has the page count of its size class and does not start at page 0, and it is in the
  nonempty list iff its free list is not \<^verbatim>\<open>nil\<close>.
\<close>

definition span_ok :: "geometry \<Rightarrow> state \<Rightarrow> spanid \<Rightarrow> bool" where
  "span_ok G st s =
     (chain (mem st) (freelist (span st s)) (flist G st s) \<and>
      set (flist G st s) \<subseteq> set (slots G st s) \<and>
      ref (span st s) + length (flist G st s) = nobj G st s \<and>
      npages (span st s) = class_to_allocnpages G (sizeclass (central st)) \<and>
      0 < start (span st s) \<and>
      (s \<in> set (nonempty (central st)) \<longleftrightarrow> freelist (span st s) \<noteq> 0))"

text \<open>
  The page heap is well formed: the spans in use and the spans it will grant are
  distinct structures with pairwise disjoint byte ranges, and none starts at page 0.
\<close>

definition ranges :: "geometry \<Rightarrow> state \<Rightarrow> (nat \<times> nat) list" where
  "ranges G st =
     map (\<lambda>s. (base G (span st s), base G (span st s) + bytes G (span st s))) (inuse st) @
     map (\<lambda>(s, p). (p * 2 ^ PageShift G,
                      p * 2 ^ PageShift G +
                        class_to_allocnpages G (sizeclass (central st)) * 2 ^ PageShift G))
         (freespans st)"

fun disjoint_ranges :: "(nat \<times> nat) list \<Rightarrow> bool" where
  "disjoint_ranges [] = True"
| "disjoint_ranges (r # rs) =
     ((\<forall>q \<in> set rs. snd r \<le> fst q \<or> snd q \<le> fst r) \<and> disjoint_ranges rs)"

definition heap_ok :: "geometry \<Rightarrow> state \<Rightarrow> bool" where
  "heap_ok G st =
     (distinct (inuse st @ map fst (freespans st)) \<and>
      disjoint_ranges (ranges G st) \<and>
      (\<forall>(s, p) \<in> set (freespans st). 0 < p))"

text \<open>The invariant of the central list, and the accuracy of its counter.\<close>

definition pool_inv :: "geometry \<Rightarrow> state \<Rightarrow> bool" where
  "pool_inv G st =
     (geom_ok G (sizeclass (central st)) \<and>
      distinct (owned st) \<and>
      set (owned st) \<subseteq> set (inuse st) \<and>
      heap_ok G st \<and>
      (\<forall>s \<in> set (owned st). span_ok G st s))"

definition counter_ok :: "geometry \<Rightarrow> state \<Rightarrow> bool" where
  "counter_ok G st = (nfree (central st) = int (length (allfree G st)))"

text \<open>
  What a run of allocations that took the objects \<open>zs\<close> leaves behind: the free
  objects are those of before without \<open>zs\<close>, taken from the front of the free lists of
  the nonempty spans, each span of the central counts the objects taken from it in
  its \<open>ref\<close>, and the heap is as before.
\<close>

definition alloc_post :: "geometry \<Rightarrow> state \<Rightarrow> addr list \<Rightarrow> state \<Rightarrow> bool" where
  "alloc_post G st zs st' =
     (pool_inv G st' \<and>
      avail G st = zs @ avail G st' \<and>
      set (allfree G st') = set (allfree G st) - set zs \<and>
      length (allfree G st) = length zs + length (allfree G st') \<and>
      inuse st' = inuse st \<and> freespans st' = freespans st \<and>
      sizeclass (central st') = sizeclass (central st) \<and>
      set (owned st') = set (owned st) \<and>
      (\<forall>s. start (span st' s) = start (span st s) \<and>
           npages (span st' s) = npages (span st s)) \<and>
      (\<forall>s \<in> set (owned st).
         ref (span st' s) = ref (span st s) + length (filter (inspan G (span st s)) zs)))"

text \<open>An object held by a client: a block of a span of the central that is not free.\<close>

definition allocated :: "geometry \<Rightarrow> state \<Rightarrow> addr \<Rightarrow> bool" where
  "allocated G st x =
     (\<exists>s \<in> set (owned st). x \<in> set (slots G st s) \<and> x \<notin> set (flist G st s))"

text \<open>
  Every span of the central holds an allocated object. \<^verbatim>\<open>MCentral_Grow\<close> is static and
  \<^verbatim>\<open>MCentral_AllocList\<close>, its one caller, allocates from the new span before it gives
  up the lock; the free that takes the last object of a span releases the span.
\<close>

definition live_spans :: "state \<Rightarrow> bool" where
  "live_spans st = (\<forall>s \<in> set (owned st). 0 < ref (span st s))"

subsection \<open>Freeing a chain object by object\<close>

text \<open>
  The reading of a batch free in the words of the specification: each object of the
  chain is given to \<^verbatim>\<open>MCentral_Free\<close>, one at a time, in chain order.
\<close>

fun free_each :: "geometry \<Rightarrow> state \<Rightarrow> addr list \<Rightarrow> state result" where
  "free_each G st [] = Inr st"
| "free_each G st (x # xs) =
     (case MCentral_Free G st x of Inl e \<Rightarrow> Inl e | Inr st' \<Rightarrow> free_each G st' xs)"

subsection \<open>Runs of a client\<close>

text \<open>
  \<^verbatim>\<open>MCentral_Init\<close> sets the size class and the two lists and leaves \<^verbatim>\<open>nfree\<close> as it
  finds it: the structure lies in zeroed memory. An initialized central therefore has
  empty lists and a counter of 0; its size class has a sound geometry and the page heap
  is well formed.
\<close>

definition initialized :: "geometry \<Rightarrow> state \<Rightarrow> bool" where
  "initialized G st =
     (central st = MCentral_Init (central st) (sizeclass (central st)) \<and>
      nfree (central st) = 0 \<and>
      geom_ok G (sizeclass (central st)) \<and> heap_ok G st)"

text \<open>
  The calls of a run: a batch allocation, a batch free, \<^verbatim>\<open>MCentral_Grow\<close> on its own
  (static in the source, where only \<^verbatim>\<open>MCentral_AllocList\<close> calls it), and a write of
  the client to the \<^verbatim>\<open>next\<close> field of an object it holds. A batch free
  is given the objects of its chain; the call is legal when \<^verbatim>\<open>start\<close> heads this chain
  and the client holds each of its objects. \<open>step\<close> is \<open>None\<close> for a call that is
  not legal or ends in a fault.
\<close>

datatype call =
    AllocBatch int
  | FreeBatch int addr "addr list"
  | GrowPool
  | Store addr addr

fun step :: "geometry \<Rightarrow> state \<Rightarrow> call \<Rightarrow> state option" where
  "step G st (AllocBatch n) =
     (case MCentral_AllocList G st n of Inl e \<Rightarrow> None | Inr (i, first, st') \<Rightarrow> Some st')"
| "step G st (FreeBatch n v xs) =
     (if chain (mem st) v xs \<and> list_all (allocated G st) xs
      then (case MCentral_FreeList G st n v of Inl e \<Rightarrow> None | Inr st' \<Rightarrow> Some st')
      else None)"
| "step G st GrowPool =
     (case MCentral_Grow G st of Inl e \<Rightarrow> None | Inr (ok, st') \<Rightarrow> Some st')"
| "step G st (Store a b) =
     (if allocated G st a then Some (st\<lparr>mem := (mem st)(a := b)\<rparr>) else None)"

fun run :: "geometry \<Rightarrow> state \<Rightarrow> call list \<Rightarrow> state option" where
  "run G st [] = Some st"
| "run G st (c # cs) = (case step G st c of None \<Rightarrow> None | Some st' \<Rightarrow> run G st' cs)"

text \<open>A batch allocation whose chain goes back, unchanged, in a batch free.\<close>

definition roundtrip :: "geometry \<Rightarrow> state \<Rightarrow> int \<Rightarrow> state result" where
  "roundtrip G st n =
     (case MCentral_AllocList G st n of
        Inl e \<Rightarrow> Inl e
      | Inr (i, first, st') \<Rightarrow> MCentral_FreeList G st' i first)"

subsection \<open>Reading results\<close>

text \<open>The count a batch allocation granted, and the state it left, if it returned.\<close>

definition granted :: "(int \<times> addr \<times> state) result \<Rightarrow> int option" where
  "granted r = (case r of Inl e \<Rightarrow> None | Inr (i, first, st) \<Rightarrow> Some i)"

definition final :: "(int \<times> addr \<times> state) result \<Rightarrow> state option" where
  "final r = (case r of Inl e \<Rightarrow> None | Inr (i, first, st) \<Rightarrow> Some st)"

text \<open>The spans of the central and its counter in the state an operation left.\<close>

definition pool_after :: "state result \<Rightarrow> (spanid list \<times> int) option" where
  "pool_after r =
     (case r of Inl e \<Rightarrow> None | Inr st \<Rightarrow> Some (owned st, nfree (central st)))"

subsection \<open>A small instance\<close>

text \<open>
  A geometry with 16-byte objects and one 64-byte page per span, so four objects per
  span (and the one of the specification's scenarios, with pages of 8192 bytes and 512
  objects per span), and states of a central list over it: a fresh one with two spans left in
  the heap, and three with the span at page 1 granted, of which three objects, one
  object and all four objects are allocated.
\<close>

definition G0 :: geometry where
  "G0 = \<lparr>class_to_size = (\<lambda>_. 16), class_to_allocnpages = (\<lambda>_. 1), PageShift = 6\<rparr>"

definition G8k :: geometry where
  "G8k = \<lparr>class_to_size = (\<lambda>_. 16), class_to_allocnpages = (\<lambda>_. 1), PageShift = 13\<rparr>"

definition nospan :: MSpan where
  "nospan = \<lparr>start = 0, npages = 0, freelist = 0, ref = 0, limit = 0\<rparr>"

definition W0 :: state where
  "W0 = \<lparr>central = \<lparr>sizeclass = 0, nonempty = [], empty = [], nfree = 0\<rparr>,
         span = (\<lambda>_. nospan), mem = (\<lambda>_. 0), inuse = [], freespans = [(1, 1), (2, 2)]\<rparr>"

definition W1 :: state where
  "W1 = \<lparr>central = \<lparr>sizeclass = 0, nonempty = [1], empty = [], nfree = 1\<rparr>,
         span = (\<lambda>_. nospan)
                  (1 := \<lparr>start = 1, npages = 1, freelist = 112, ref = 3, limit = 128\<rparr>),
         mem = (\<lambda>_. 0)(64 := 80, 80 := 96),
         inuse = [1], freespans = [(2, 2)]\<rparr>"

definition W3 :: state where
  "W3 = \<lparr>central = \<lparr>sizeclass = 0, nonempty = [1], empty = [], nfree = 3\<rparr>,
         span = (\<lambda>_. nospan)
                  (1 := \<lparr>start = 1, npages = 1, freelist = 80, ref = 1, limit = 128\<rparr>),
         mem = (\<lambda>_. 0)(80 := 96, 96 := 112),
         inuse = [1], freespans = [(2, 2)]\<rparr>"

definition W2 :: state where
  "W2 = \<lparr>central = \<lparr>sizeclass = 0, nonempty = [], empty = [1], nfree = 0\<rparr>,
         span = (\<lambda>_. nospan)
                  (1 := \<lparr>start = 1, npages = 1, freelist = 0, ref = 4, limit = 128\<rparr>),
         mem = (\<lambda>_. 0)(64 := 80, 80 := 96, 96 := 112),
         inuse = [1], freespans = [(2, 2)]\<rparr>"

text \<open>The central right after it grew by the span at page 1: no object is allocated.\<close>

definition Wg :: state where
  "Wg = \<lparr>central = \<lparr>sizeclass = 0, nonempty = [1], empty = [], nfree = 4\<rparr>,
         span = (\<lambda>_. nospan)
                  (1 := \<lparr>start = 1, npages = 1, freelist = 64, ref = 0, limit = 128\<rparr>),
         mem = (\<lambda>_. 0)(64 := 80, 80 := 96, 96 := 112),
         inuse = [1], freespans = [(2, 2)]\<rparr>"
section \<open>Properties\<close>

subsection \<open>The outcomes of a single allocation and a single free\<close>

lemma MGetSizeClassInfo_formula:
  assumes sz: "0 < class_to_size G sc"
    and b: "class_to_allocnpages G sc * 2 ^ PageShift G < 2 ^ 31"
  shows "MGetSizeClassInfo G sc =
           Some (class_to_size G sc, class_to_allocnpages G sc,
                 int (class_to_allocnpages G sc * 2 ^ PageShift G div class_to_size G sc))"
proof -
  let ?b = "class_to_allocnpages G sc * 2 ^ PageShift G"
  have "int ?b < 2 ^ 31" using b by (metis of_nat_less_iff of_nat_numeral of_nat_power)
  then have "int32 (int ?b) = int ?b"
    by (simp add: int32_def)
  moreover have "cdiv (int ?b) (int (class_to_size G sc)) = int (?b div class_to_size G sc)"
    using sz by (simp add: cdiv_def zdiv_int sgn_if)
  ultimately show ?thesis
    using sz by (simp add: MGetSizeClassInfo_def Let_def)
qed

lemma MGetSizeClassInfo_ok:
  assumes "geom_ok G sc"
  shows "MGetSizeClassInfo G sc =
           Some (class_to_size G sc, class_to_allocnpages G sc,
                 int (class_to_allocnpages G sc * 2 ^ PageShift G div class_to_size G sc))"
  using assms by (intro MGetSizeClassInfo_formula) (simp_all add: geom_ok_def)

lemma geom_ok_nobj:
  "geom_ok G sc \<Longrightarrow> 0 < class_to_allocnpages G sc * 2 ^ PageShift G div class_to_size G sc"
  by (simp add: geom_ok_def div_greater_zero_iff)

lemma carve_Link:
  "carve k sz (Link a) p (h, m) = (t, h', m') \<Longrightarrow> h' = h \<and> (\<exists>b. t = Link b)"
  by (induction k arbitrary: a p m) auto

lemma carve_Head:
  "0 < k \<Longrightarrow> carve k sz Head p (h, m) = (t, h', m') \<Longrightarrow> h' = p \<and> (\<exists>b. t = Link b)"
  by (cases k) (auto dest: carve_Link)

lemma carve_store_head:
  assumes "0 < k" "carve k sz Head p (h, m) = (t, hm)" "store_tail t 0 hm = (h', m')"
  shows "h' = p"
proof -
  obtain h1 m1 where hm: "hm = (h1, m1)" by (cases hm)
  from carve_Head [OF assms(1)] assms(2) hm obtain b where "h1 = p" "t = Link b" by blast
  with assms(3) hm show ?thesis by simp
qed


lemma MCentral_Alloc_cases:
  assumes "MCentral_Alloc st = Inr (v, st')"
  obtains (none) "nonempty (central st) = []" "v = 0" "st' = st"
  | (keep) s rest where "nonempty (central st) = s # rest" "v = freelist (span st s)" "v \<noteq> 0"
      "mem st v \<noteq> 0"
      "span st' = (span st)(s := (span st s)\<lparr>freelist := mem st v, ref := ref (span st s) + 1\<rparr>)"
      "central st' = central st" "mem st' = mem st" "inuse st' = inuse st"
      "freespans st' = freespans st"
  | (move) s rest where "nonempty (central st) = s # rest" "v = freelist (span st s)" "v \<noteq> 0"
      "mem st v = 0"
      "span st' = (span st)(s := (span st s)\<lparr>freelist := 0, ref := ref (span st s) + 1\<rparr>)"
      "central st' = (central st)\<lparr>nonempty := removeAll s (nonempty (central st)),
                                    empty := s # removeAll s (empty (central st))\<rparr>"
      "mem st' = mem st" "inuse st' = inuse st" "freespans st' = freespans st"
proof (cases "nonempty (central st)")
  case Nil
  with assms have "v = 0" "st' = st"
    by (simp_all add: MCentral_Alloc_def MSpanList_IsEmpty_def)
  with Nil show ?thesis by (rule none)
next
  case (Cons s rest)
  with assms have v: "v = freelist (span st s)" "v \<noteq> 0"
    by (auto simp: MCentral_Alloc_def MSpanList_IsEmpty_def Let_def split: if_splits)
  show ?thesis
  proof (cases "mem st v = 0")
    case True
    with assms Cons v have
      "span st' = (span st)(s := (span st s)\<lparr>freelist := 0, ref := ref (span st s) + 1\<rparr>)"
      "central st' = (central st)\<lparr>nonempty := removeAll s (nonempty (central st)),
                                    empty := s # removeAll s (empty (central st))\<rparr>"
      "mem st' = mem st" "inuse st' = inuse st" "freespans st' = freespans st"
      by (auto simp: MCentral_Alloc_def MSpanList_IsEmpty_def MSpanList_Remove_def
                    MSpanList_Insert_def Let_def)
    with Cons v True show ?thesis by (intro move)
  next
    case False
    with assms Cons v have
      "span st' = (span st)(s := (span st s)\<lparr>freelist := mem st v, ref := ref (span st s) + 1\<rparr>)"
      "central st' = central st" "mem st' = mem st" "inuse st' = inuse st"
      "freespans st' = freespans st"
      by (auto simp: MCentral_Alloc_def MSpanList_IsEmpty_def Let_def)
    with Cons v False show ?thesis by (intro keep)
  qed
qed

lemma list_inv_Alloc:
  assumes "list_inv st" "MCentral_Alloc st = Inr (v, st')"
  shows "list_inv st' \<and> set (owned st') = set (owned st) \<and>
     inuse st' = inuse st \<and> freespans st' = freespans st"
  using assms(2)
proof (cases rule: MCentral_Alloc_cases)
  case none
  with assms(1) show ?thesis by simp
next
  case (keep s rest)
  with assms(1) show ?thesis
    by (auto simp: list_inv_def owned_def)
next
  case (move s rest)
  with assms(1) show ?thesis
    by (auto simp: list_inv_def owned_def)
qed

lemma MHeap_Lookup_Some: "MHeap_Lookup G st v = Some s \<Longrightarrow> s \<in> set (inuse st) \<and> inspan G (span st s) v"
  by (auto simp: MHeap_Lookup_def dest: find_Some_set)

lemma base_update [simp]:
  "base G (sp\<lparr>freelist := f\<rparr>) = base G sp" "base G (sp\<lparr>ref := r\<rparr>) = base G sp"
  "base G (sp\<lparr>limit := l\<rparr>) = base G sp"
  by (simp_all add: base_def)

lemma bytes_update [simp]:
  "bytes G (sp\<lparr>freelist := f\<rparr>) = bytes G sp" "bytes G (sp\<lparr>ref := r\<rparr>) = bytes G sp"
  "bytes G (sp\<lparr>limit := l\<rparr>) = bytes G sp"
  by (simp_all add: bytes_def)

lemma inspan_update [simp]:
  "inspan G (sp\<lparr>freelist := f\<rparr>) = inspan G sp" "inspan G (sp\<lparr>ref := r\<rparr>) = inspan G sp"
  "inspan G (sp\<lparr>limit := l\<rparr>) = inspan G sp"
  by (simp_all add: inspan_def fun_eq_iff)

lemma MCentral_Free_cases:
  assumes "MCentral_Free G st v = Inr st'"
  obtains (keep) s where "MHeap_Lookup G st v = Some s" "1 < ref (span st s)" "v \<noteq> 0"
      "central st' = (if freelist (span st s) = 0
                      then (central st)\<lparr>nonempty := s # removeAll s (nonempty (central st)),
                                         empty := removeAll s (empty (central st)),
                                         nfree := nfree (central st) + 1\<rparr>
                      else (central st)\<lparr>nfree := nfree (central st) + 1\<rparr>)"
      "mem st' = (mem st)(v := freelist (span st s))"
      "span st' = (span st)(s := (span st s)\<lparr>freelist := v, ref := ref (span st s) - 1\<rparr>)"
      "inuse st' = inuse st" "freespans st' = freespans st"
  | (release) s where "MHeap_Lookup G st v = Some s" "ref (span st s) = 1" "v \<noteq> 0"
      "class_to_size G (sizeclass (central st)) \<noteq> 0"
      "central st' = (central st)\<lparr>nonempty := removeAll s (nonempty (central st)),
                                    empty := removeAll s (empty (central st)),
                                    nfree := nfree (central st) + 1 -
                                      int (bytes G (span st s) div
                                           class_to_size G (sizeclass (central st)))\<rparr>"
      "mem st' = (mem st)(v := freelist (span st s), base G (span st s) := 1)"
      "span st' = (span st)(s := (span st s)\<lparr>freelist := 0, ref := 0\<rparr>)"
      "inuse st' = removeAll s (inuse st)" "freespans st' = freespans st"
proof -
  from assms obtain s where look: "MHeap_Lookup G st v = Some s"
    by (auto simp: MCentral_Free_def split: option.splits)
  from assms look have pos: "0 < ref (span st s)" and v: "v \<noteq> 0"
    by (auto simp: MCentral_Free_def Let_def split: if_splits)
  show ?thesis
  proof (cases "ref (span st s) = 1")
    case True
    have sz: "class_to_size G (sizeclass (central st)) \<noteq> 0"
    proof
      assume "class_to_size G (sizeclass (central st)) = 0"
      with assms look v True show False
        by (cases "freelist (span st s) = 0")
           (simp_all add: MCentral_Free_def Let_def MSpanList_Remove_def)
    qed
    from assms look v True sz have
      "central st' = (central st)\<lparr>nonempty := removeAll s (nonempty (central st)),
                                    empty := removeAll s (empty (central st)),
                                    nfree := nfree (central st) + 1 -
                                      int (bytes G (span st s) div
                                           class_to_size G (sizeclass (central st)))\<rparr>"
      "mem st' = (mem st)(v := freelist (span st s), base G (span st s) := 1)"
      "span st' = (span st)(s := (span st s)\<lparr>freelist := 0, ref := 0\<rparr>)"
      "inuse st' = removeAll s (inuse st)" "freespans st' = freespans st"
      by (cases "freelist (span st s) = 0";
          auto simp: MCentral_Free_def Let_def MSpanList_Remove_def MSpanList_Insert_def
                    MHeap_Free_def)+
    with look True v sz show ?thesis by (intro release)
  next
    case False
    with pos have gt: "1 < ref (span st s)" by simp
    with assms look v have
      "central st' = (if freelist (span st s) = 0
                      then (central st)\<lparr>nonempty := s # removeAll s (nonempty (central st)),
                                         empty := removeAll s (empty (central st)),
                                         nfree := nfree (central st) + 1\<rparr>
                      else (central st)\<lparr>nfree := nfree (central st) + 1\<rparr>)"
      "mem st' = (mem st)(v := freelist (span st s))"
      "span st' = (span st)(s := (span st s)\<lparr>freelist := v, ref := ref (span st s) - 1\<rparr>)"
      "inuse st' = inuse st" "freespans st' = freespans st"
      by (cases "freelist (span st s) = 0";
          auto simp: MCentral_Free_def Let_def MSpanList_Remove_def MSpanList_Insert_def)+
    with look gt v show ?thesis by (intro keep)
  qed
qed

subsection \<open>List membership is kept by every step\<close>

lemma list_invD:
  "list_inv st \<Longrightarrow> s \<in> set (nonempty (central st)) \<or> s \<in> set (empty (central st)) \<Longrightarrow>
   (s \<in> set (nonempty (central st)) \<longleftrightarrow> freelist (span st s) \<noteq> 0) \<and>
   (s \<in> set (empty (central st)) \<longleftrightarrow> freelist (span st s) = 0 \<and> 0 < ref (span st s))"
  unfolding list_inv_def owned_def set_append Un_iff by blast

lemma list_invI:
  "(\<And>s. s \<in> set (nonempty (central st)) \<or> s \<in> set (empty (central st)) \<Longrightarrow>
     (s \<in> set (nonempty (central st)) \<longleftrightarrow> freelist (span st s) \<noteq> 0) \<and>
     (s \<in> set (empty (central st)) \<longleftrightarrow> freelist (span st s) = 0 \<and> 0 < ref (span st s)))
   \<Longrightarrow> list_inv st"
  unfolding list_inv_def owned_def set_append Un_iff by blast

lemma list_inv_Free:
  assumes inv: "list_inv st" and free: "MCentral_Free G st v = Inr st'"
  shows "list_inv st' \<and> set (owned st') \<subseteq> set (owned st) \<union> set (inuse st) \<and>
     set (inuse st') \<subseteq> set (inuse st) \<and> freespans st' = freespans st"
  using free
proof (cases rule: MCentral_Free_cases)
  case (keep s)
  from keep(1) have s_in: "s \<in> set (inuse st)" by (simp add: MHeap_Lookup_Some)
  have ne: "set (nonempty (central st')) =
              (if freelist (span st s) = 0 then insert s (set (nonempty (central st)))
               else set (nonempty (central st)))"
    and em: "set (empty (central st')) =
              (if freelist (span st s) = 0 then set (empty (central st)) - {s}
               else set (empty (central st)))"
    using keep(4) by auto
  have sp: "\<And>t. t \<noteq> s \<Longrightarrow> span st' t = span st t"
    and sps: "freelist (span st' s) = v" "ref (span st' s) = ref (span st s) - 1"
    using keep(6) by simp_all
  have "list_inv st'"
  proof (rule list_invI)
    fix t
    assume t: "t \<in> set (nonempty (central st')) \<or> t \<in> set (empty (central st'))"
    show "(t \<in> set (nonempty (central st')) \<longleftrightarrow> freelist (span st' t) \<noteq> 0) \<and>
          (t \<in> set (empty (central st')) \<longleftrightarrow> freelist (span st' t) = 0 \<and> 0 < ref (span st' t))"
    proof (cases "t = s")
      case True
      show ?thesis
      proof (cases "freelist (span st s) = 0")
        case True
        with \<open>t = s\<close> ne em sps keep(3) show ?thesis by simp
      next
        case False
        with t \<open>t = s\<close> ne em have "s \<in> set (nonempty (central st)) \<or> s \<in> set (empty (central st))"
          by simp
        from list_invD [OF inv this] False \<open>t = s\<close> ne em sps keep(3) show ?thesis by simp
      qed
    next
      case False
      with t ne em have "t \<in> set (nonempty (central st)) \<or> t \<in> set (empty (central st))"
        by (auto split: if_splits)
      from list_invD [OF inv this] False ne em sp [OF False] show ?thesis
        by (auto split: if_splits)
    qed
  qed
  moreover have "set (owned st') \<subseteq> set (owned st) \<union> set (inuse st)"
    using ne em s_in by (auto simp: owned_def split: if_splits)
  ultimately show ?thesis using keep(7,8) by simp
next
  case (release s)
  have ne: "set (nonempty (central st')) = set (nonempty (central st)) - {s}"
    and em: "set (empty (central st')) = set (empty (central st)) - {s}"
    using release(5) by auto
  have sp: "\<And>t. t \<noteq> s \<Longrightarrow> span st' t = span st t"
    using release(7) by simp
  have "list_inv st'"
  proof (rule list_invI)
    fix t
    assume t: "t \<in> set (nonempty (central st')) \<or> t \<in> set (empty (central st'))"
    with ne em have ts: "t \<noteq> s" and "t \<in> set (nonempty (central st)) \<or> t \<in> set (empty (central st))"
      by auto
    from list_invD [OF inv this(2)] ts ne em sp [OF ts]
    show "(t \<in> set (nonempty (central st')) \<longleftrightarrow> freelist (span st' t) \<noteq> 0) \<and>
          (t \<in> set (empty (central st')) \<longleftrightarrow> freelist (span st' t) = 0 \<and> 0 < ref (span st' t))"
      by auto
  qed
  moreover have "set (owned st') \<subseteq> set (owned st) \<union> set (inuse st)"
    using ne em by (auto simp: owned_def)
  ultimately show ?thesis using release(8,9) by auto
qed

lemma heap_fresh_Alloc:
  assumes "list_inv st" "heap_fresh st" "MCentral_Alloc st = Inr (v, st')"
  shows "heap_fresh st'"
  using list_inv_Alloc [OF assms(1,3)] assms(2) by (simp add: heap_fresh_def)

lemma heap_fresh_Free:
  assumes "list_inv st" "heap_fresh st" "MCentral_Free G st v = Inr st'"
  shows "heap_fresh st'"
proof -
  from list_inv_Free [OF assms(1,3)]
  have o: "set (owned st') \<subseteq> set (owned st) \<union> set (inuse st)"
    and i: "set (inuse st') \<subseteq> set (inuse st)" and f: "freespans st' = freespans st"
    by simp_all
  from assms(2) o i show ?thesis
    unfolding heap_fresh_def f by blast
qed

subsection \<open>Carving\<close>

lemma length_slots_from [simp]: "length (slots_from p sz k) = k"
  by (induction k arbitrary: p) auto

lemma slots_from_bounds:
  "x \<in> set (slots_from p sz k) \<Longrightarrow> p \<le> x \<and> x + sz \<le> p + k * sz"
proof (induction k arbitrary: p)
  case 0
  then show ?case by simp
next
  case (Suc k)
  from Suc.prems have "x = p \<or> x \<in> set (slots_from (p + sz) sz k)" by auto
  then show ?case
  proof
    assume "x = p"
    then show ?thesis by simp
  next
    assume "x \<in> set (slots_from (p + sz) sz k)"
    from Suc.IH [OF this] show ?thesis by simp
  qed
qed

lemma distinct_slots_from: "0 < sz \<Longrightarrow> distinct (slots_from p sz k)"
proof (induction k arbitrary: p)
  case 0
  then show ?case by simp
next
  case (Suc k)
  have "p \<notin> set (slots_from (p + sz) sz k)"
    using slots_from_bounds [of p "p + sz" sz k] Suc.prems by auto
  with Suc show ?case by simp
qed

lemma carve_Link_mem:
  assumes "0 < sz" "a < p"
    and "carve k sz (Link a) p (h, m) = (t, hm1)" "store_tail t 0 hm1 = (h', m')"
  shows "h' = h \<and> m' a = (if k = 0 then 0 else p) \<and>
         chain m' (if k = 0 then 0 else p) (slots_from p sz k) \<and>
         (\<forall>x. x \<noteq> a \<and> x \<notin> set (slots_from p sz k) \<longrightarrow> m' x = m x)"
  using assms(2-)
proof (induction k arbitrary: a p m)
  case 0
  then show ?case by auto
next
  case (Suc k)
  from Suc.prems(2) have c: "carve k sz (Link p) (p + sz) (h, m(a := p)) = (t, hm1)" by simp
  have lt: "p < p + sz" using assms(1) by simp
  from Suc.IH [OF lt c Suc.prems(3)]
  have h: "h' = h" and mp: "m' p = (if k = 0 then 0 else p + sz)"
    and ch: "chain m' (if k = 0 then 0 else p + sz) (slots_from (p + sz) sz k)"
    and fr: "\<And>x. x \<noteq> p \<Longrightarrow> x \<notin> set (slots_from (p + sz) sz k) \<Longrightarrow> m' x = (m(a := p)) x"
    by auto
  have a_notin: "a \<notin> set (slots_from (p + sz) sz k)"
    using slots_from_bounds [of a "p + sz" sz k] Suc.prems(1) by auto
  have "m' a = p" using fr [OF _ a_notin] Suc.prems(1) by simp
  moreover have "chain m' p (slots_from p sz (Suc k))"
    using ch mp Suc.prems(1) by simp
  moreover have "\<forall>x. x \<noteq> a \<and> x \<notin> set (slots_from p sz (Suc k)) \<longrightarrow> m' x = m x"
    using fr by auto
  ultimately show ?case using h by simp
qed

lemma carve_Head_mem:
  assumes "0 < sz" "0 < p" "0 < k"
    and "carve k sz Head p (h, m) = (t, hm1)" "store_tail t 0 hm1 = (h', m')"
  shows "h' = p \<and> chain m' p (slots_from p sz k) \<and>
         (\<forall>x. x \<notin> set (slots_from p sz k) \<longrightarrow> m' x = m x)"
proof -
  from assms(3) obtain j where k: "k = Suc j" by (cases k) auto
  with assms(4) have c: "carve j sz (Link p) (p + sz) (p, m) = (t, hm1)" by simp
  have lt: "p < p + sz" using assms(1) by simp
  from carve_Link_mem [OF assms(1) lt c assms(5)]
  have h: "h' = p" and mp: "m' p = (if j = 0 then 0 else p + sz)"
    and ch: "chain m' (if j = 0 then 0 else p + sz) (slots_from (p + sz) sz j)"
    and fr: "\<And>x. x \<noteq> p \<Longrightarrow> x \<notin> set (slots_from (p + sz) sz j) \<Longrightarrow> m' x = m x"
    by auto
  have "chain m' p (slots_from p sz k)" using ch mp assms(2) k by simp
  moreover have "\<forall>x. x \<notin> set (slots_from p sz k) \<longrightarrow> m' x = m x"
    using fr k by auto
  ultimately show ?thesis using h by simp
qed

text \<open>The outcomes of \<^verbatim>\<open>MCentral_Grow\<close> on a sound geometry.\<close>

lemma MCentral_Grow_cases:
  assumes "MCentral_Grow G st = r" and g: "geom_ok G (sizeclass (central st))"
    and pos: "\<forall>(s, p) \<in> set (freespans st). 0 < p"
  obtains (exhausted) "freespans st = []" "r = Inr (False, st)"
  | (grown) s p rest st' where "freespans st = (s, p) # rest" "r = Inr (True, st')"
      "central st' = (central st)\<lparr>nonempty := s # nonempty (central st),
          nfree := nfree (central st) +
            int (class_to_allocnpages G (sizeclass (central st)) * 2 ^ PageShift G div
                 class_to_size G (sizeclass (central st)))\<rparr>"
      "start (span st' s) = p"
      "npages (span st' s) = class_to_allocnpages G (sizeclass (central st))"
      "freelist (span st' s) = p * 2 ^ PageShift G"
      "ref (span st' s) = 0"
      "\<And>t. t \<noteq> s \<Longrightarrow> span st' t = span st t"
      "inuse st' = s # inuse st" "freespans st' = rest"
      "chain (mem st') (p * 2 ^ PageShift G)
         (slots_from (p * 2 ^ PageShift G) (class_to_size G (sizeclass (central st)))
            (class_to_allocnpages G (sizeclass (central st)) * 2 ^ PageShift G div
                 class_to_size G (sizeclass (central st))))"
      "\<And>x. x \<notin> set (slots_from (p * 2 ^ PageShift G) (class_to_size G (sizeclass (central st)))
            (class_to_allocnpages G (sizeclass (central st)) * 2 ^ PageShift G div
                 class_to_size G (sizeclass (central st)))) \<Longrightarrow> mem st' x = mem st x"
proof -
  let ?sc = "sizeclass (central st)"
  let ?sz = "class_to_size G ?sc"
  let ?np = "class_to_allocnpages G ?sc"
  let ?n = "?np * 2 ^ PageShift G div ?sz"
  note info = MGetSizeClassInfo_ok [OF g]
  have n: "0 < ?n" by (rule geom_ok_nobj [OF g])
  have sz: "0 < ?sz" using g by (simp add: geom_ok_def)
  show ?thesis
  proof (cases "freespans st")
    case Nil
    with assms(1) info have "r = Inr (False, st)"
      by (simp add: MCentral_Grow_def MHeap_Alloc_def)
    with Nil show ?thesis by (rule exhausted)
  next
    case (Cons sp rest)
    obtain s p where spp: "sp = (s, p)" by (cases sp)
    with Cons pos have p: "0 < p" by auto
    define st1 where "st1 = st\<lparr>span := (span st)(s := \<lparr>start = p, npages = ?np, freelist = 0,
                                               ref = 0, limit = 0\<rparr>),
                      inuse := s # inuse st, freespans := rest\<rparr>"
    have alloc: "MHeap_Alloc st ?np ?sc = Some (s, st1)"
      using Cons spp by (simp add: MHeap_Alloc_def st1_def)
    have b: "base G (span st1 s) = p * 2 ^ PageShift G"
      by (simp add: st1_def base_def)
    have bpos: "0 < p * 2 ^ PageShift G" using p by simp
    obtain t hm1 where cv: "carve ?n ?sz Head (p * 2 ^ PageShift G) (0, mem st) = (t, hm1)"
      by (cases "carve ?n ?sz Head (p * 2 ^ PageShift G) (0, mem st)")
    obtain h' m' where stt: "store_tail t 0 hm1 = (h', m')"
      by (cases "store_tail t 0 hm1")
    note cm = carve_Head_mem [OF sz bpos n cv stt]
    define st' where "st' = st1\<lparr>span := (span st1)(s := (span st1 s)\<lparr>freelist := h',
                            limit := p * 2 ^ PageShift G + ?sz * ?n\<rparr>),
                         mem := m',
                         central := (central st1)\<lparr>nfree := nfree (central st1) + int ?n,
                            nonempty := MSpanList_Insert (nonempty (central st1)) s\<rparr>\<rparr>"
    have r: "r = Inr (True, st')"
      using assms(1) info alloc b bpos cv stt
      by (simp add: MCentral_Grow_def st'_def st1_def Let_def)
    show ?thesis
    proof (rule grown [of s p rest st'])
      show "freespans st = (s, p) # rest" using Cons spp by simp
      show "r = Inr (True, st')" by (rule r)
    qed (use cm in \<open>simp_all add: st'_def st1_def MSpanList_Insert_def\<close>)
  qed
qed

lemma sizeclass_Alloc:
  "MCentral_Alloc st = Inr (v, st') \<Longrightarrow> sizeclass (central st') = sizeclass (central st)"
  by (erule MCentral_Alloc_cases) simp_all

lemma sizeclass_Free:
  "MCentral_Free G st v = Inr st' \<Longrightarrow> sizeclass (central st') = sizeclass (central st)"
  by (erule MCentral_Free_cases) simp_all

lemma list_inv_frame:
  assumes "nonempty (central st') = nonempty (central st)"
    "empty (central st') = empty (central st)" "span st' = span st"
  shows "list_inv st' = list_inv st"
  using assms by (simp add: list_inv_def owned_def)

lemma heap_fresh_frame:
  assumes "nonempty (central st') = nonempty (central st)"
    "empty (central st') = empty (central st)" "inuse st' = inuse st"
    "freespans st' = freespans st"
  shows "heap_fresh st' = heap_fresh st"
  using assms by (simp add: heap_fresh_def owned_def)

lemma heap_freshD:
  "heap_fresh st \<Longrightarrow> (s, p) \<in> set (freespans st) \<Longrightarrow>
     s \<notin> set (inuse st) \<and> s \<notin> set (owned st) \<and> 0 < p"
  unfolding heap_fresh_def by blast

lemma list_inv_Grow:
  assumes inv: "list_inv st" and fresh: "heap_fresh st"
    and g: "geom_ok G (sizeclass (central st))"
    and grow: "MCentral_Grow G st = Inr (ok, st')"
  shows "list_inv st' \<and> heap_fresh st' \<and> sizeclass (central st') = sizeclass (central st)"
proof -
  from fresh have pos: "\<forall>(s, p) \<in> set (freespans st). 0 < p"
    unfolding heap_fresh_def by blast
  from grow g pos show ?thesis
  proof (cases rule: MCentral_Grow_cases)
    case exhausted
    with inv fresh show ?thesis by simp
  next
    case (grown s p rest st'')
    then have st'': "st'' = st'" by simp
    note gr = grown [unfolded st'']
    from heap_freshD [OF fresh, of s p] gr(1)
    have s_new: "s \<notin> set (inuse st)" "s \<notin> set (owned st)" and p: "0 < p" by simp_all
    have ne: "nonempty (central st') = s # nonempty (central st)"
      and em: "empty (central st') = empty (central st)"
      using gr(3) by simp_all
    have "list_inv st'"
    proof (rule list_invI)
      fix t
      assume t: "t \<in> set (nonempty (central st')) \<or> t \<in> set (empty (central st'))"
      show "(t \<in> set (nonempty (central st')) \<longleftrightarrow> freelist (span st' t) \<noteq> 0) \<and>
            (t \<in> set (empty (central st')) \<longleftrightarrow> freelist (span st' t) = 0 \<and> 0 < ref (span st' t))"
      proof (cases "t = s")
        case True
        with ne em s_new gr(6) p show ?thesis by (simp add: owned_def)
      next
        case False
        with t ne em have "t \<in> set (nonempty (central st)) \<or> t \<in> set (empty (central st))"
          by simp
        from list_invD [OF inv this] False ne em gr(8) [OF False] show ?thesis by simp
      qed
    qed
    moreover have "heap_fresh st'"
    proof -
      from fresh gr(1) have d: "distinct (map fst rest)" "s \<notin> fst ` set rest"
        by (simp_all add: heap_fresh_def)
      have "\<And>t q. (t, q) \<in> set rest \<Longrightarrow>
              t \<notin> set (inuse st') \<and> t \<notin> set (owned st') \<and> 0 < q"
      proof -
        fix t q
        assume tq: "(t, q) \<in> set rest"
        with gr(1) have "(t, q) \<in> set (freespans st)" by simp
        from heap_freshD [OF fresh this] have
          "t \<notin> set (inuse st)" "t \<notin> set (owned st)" "0 < q" by simp_all
        moreover from tq d(2) have "t \<noteq> s" by force
        ultimately show "t \<notin> set (inuse st') \<and> t \<notin> set (owned st') \<and> 0 < q"
          using ne em gr(9) by (simp add: owned_def)
      qed
      with d(1) gr(10) show ?thesis unfolding heap_fresh_def by auto
    qed
    ultimately show ?thesis using gr(3) by simp
  qed
qed

lemma membership_Alloc:
  "membership_inv G st \<Longrightarrow> MCentral_Alloc st = Inr (v, st') \<Longrightarrow> membership_inv G st'"
  using list_inv_Alloc [of st v st'] heap_fresh_Alloc [of st v st'] sizeclass_Alloc [of st v st']
  by (simp add: membership_inv_def)

lemma membership_Free:
  "membership_inv G st \<Longrightarrow> MCentral_Free G st v = Inr st' \<Longrightarrow> membership_inv G st'"
  using list_inv_Free [of st G v st'] heap_fresh_Free [of st G v st'] sizeclass_Free [of G st v st']
  by (simp add: membership_inv_def)

lemma membership_Grow:
  "membership_inv G st \<Longrightarrow> MCentral_Grow G st = Inr (ok, st') \<Longrightarrow> membership_inv G st'"
  using list_inv_Grow [of st G ok st'] by (simp add: membership_inv_def)

lemma membership_mem [simp]: "membership_inv G (st\<lparr>mem := m\<rparr>) = membership_inv G st"
  unfolding membership_inv_def
  by (simp add: list_inv_frame [of "st\<lparr>mem := m\<rparr>" st] heap_fresh_frame [of "st\<lparr>mem := m\<rparr>" st])

lemma membership_nfree:
  "central st' = (central st)\<lparr>nfree := x\<rparr> \<Longrightarrow> span st' = span st \<Longrightarrow> inuse st' = inuse st \<Longrightarrow>
   freespans st' = freespans st \<Longrightarrow> membership_inv G st' = membership_inv G st"
  unfolding membership_inv_def
  by (simp add: list_inv_frame [of st' st] heap_fresh_frame [of st' st])

lemma membership_loop:
  "membership_inv G st \<Longrightarrow> AllocList_loop st n i lastp = Inr (i', st', lastp') \<Longrightarrow>
   membership_inv G st'"
proof (induction st n i lastp rule: AllocList_loop.induct)
  case (1 st n i lastp)
  show ?case
  proof (cases "i < n")
    case False
    with "1.prems" show ?thesis by (simp add: AllocList_loop.simps [of st])
  next
    case True
    note lt = this
    show ?thesis
    proof (cases "MCentral_Alloc st")
      case (Inl e)
      with lt "1.prems" show ?thesis by (simp add: AllocList_loop.simps [of st])
    next
      case (Inr r)
      obtain v st1 where r: "r = (v, st1)" by (cases r)
      from membership_Alloc [OF "1.prems"(1)] Inr r have j1: "membership_inv G st1" by simp
      show ?thesis
      proof (cases "v = 0")
        case True
        with lt Inr r "1.prems" j1 show ?thesis by (simp add: AllocList_loop.simps [of st])
      next
        case False
        with lt Inr r "1.prems"
        have "AllocList_loop (st1\<lparr>mem := (mem st1)(lastp := v)\<rparr>) n (i + 1) v = Inr (i', st', lastp')"
          by (simp add: AllocList_loop.simps [of st])
        from "1.IH" [OF lt Inr r [symmetric] False _ this] j1 show ?thesis by simp
      qed
    qed
  qed
qed

lemma membership_AllocList:
  assumes "membership_inv G st"
    "MCentral_AllocList G st n = Inr (i, first, st')"
  shows "membership_inv G st'"
proof (cases "replenish G st")
  case (Inl e)
  with assms(2) show ?thesis by (simp add: MCentral_AllocList_def)
next
  case (Inr r)
  obtain ok st0 where r: "r = (ok, st0)" by (cases r)
  have j0: "membership_inv G st0"
  proof (cases "nonempty (central st) = []")
    case True
    with Inr r have "MCentral_Grow G st = Inr (ok, st0)"
      by (simp add: replenish_def MSpanList_IsEmpty_def)
    from membership_Grow [OF assms(1) this] show ?thesis .
  next
    case False
    with Inr r assms(1) show ?thesis by (simp add: replenish_def MSpanList_IsEmpty_def)
  qed
  show ?thesis
  proof (cases ok)
    case False
    with assms(2) Inr r j0 show ?thesis by (simp add: MCentral_AllocList_def)
  next
    case True
    with assms(2) Inr r obtain f2 st2 i3 st3 l3 where
      a: "MCentral_Alloc st0 = Inr (f2, st2)" and
      l: "AllocList_loop st2 n 1 f2 = Inr (i3, st3, l3)" and
      s: "st' = st3\<lparr>mem := (mem st3)(l3 := 0),
                     central := (central st3)\<lparr>nfree := nfree (central st3) - i3\<rparr>\<rparr>"
      by (auto simp: MCentral_AllocList_def Let_def split: sum.splits prod.splits if_splits)
    from membership_loop [OF membership_Alloc [OF j0 a] l] have "membership_inv G st3" .
    moreover have "membership_inv G st' = membership_inv G st3"
      by (rule membership_nfree [where x = "nfree (central st3) - i3"]) (simp_all add: s)
    ultimately show ?thesis by simp
  qed
qed

lemma membership_FreeList_loop:
  "membership_inv G st \<Longrightarrow> FreeList_loop G st v = Inr st' \<Longrightarrow> membership_inv G st'"
proof (induction G st v rule: FreeList_loop.induct)
  case (1 G st v)
  show ?case
  proof (cases "v = 0")
    case True
    with "1.prems" show ?thesis by (simp add: FreeList_loop.simps [of G st])
  next
    case False
    note nz = this
    show ?thesis
    proof (cases "MCentral_Free G st v")
      case (Inl e)
      with nz "1.prems" show ?thesis by (simp add: FreeList_loop.simps [of G st])
    next
      case (Inr st1)
      with nz "1.prems" have "FreeList_loop G st1 (mem st v) = Inr st'"
        by (simp add: FreeList_loop.simps [of G st] Let_def)
      from "1.IH" [OF nz refl Inr membership_Free [OF "1.prems"(1) Inr] this] show ?thesis .
    qed
  qed
qed

lemma list_inv_MHeap_Free: "list_inv (MHeap_Free x s) = list_inv x"
  by (rule list_inv_frame) (simp_all add: MHeap_Free_def)

lemma list_inv_MHeap_Alloc:
  assumes "list_inv st" "heap_fresh st" "MHeap_Alloc st npgs sc = Some (s, st1)"
  shows "list_inv st1"
proof -
  from assms(3) obtain p rest where fs: "freespans st = (s, p) # rest"
    and c: "central st1 = central st"
    and sp: "\<And>t. t \<noteq> s \<Longrightarrow> span st1 t = span st t"
    by (auto simp: MHeap_Alloc_def split: list.splits)
  from heap_freshD [OF assms(2), of s p] fs have new: "s \<notin> set (owned st)" by simp
  show ?thesis
  proof (rule list_invI)
    fix t
    assume "t \<in> set (nonempty (central st1)) \<or> t \<in> set (empty (central st1))"
    with c have t: "t \<in> set (nonempty (central st)) \<or> t \<in> set (empty (central st))" by simp
    with new have "t \<noteq> s" by (auto simp: owned_def)
    from list_invD [OF assms(1) t] sp [OF this] c
    show "(t \<in> set (nonempty (central st1)) \<longleftrightarrow> freelist (span st1 t) \<noteq> 0) \<and>
          (t \<in> set (empty (central st1)) \<longleftrightarrow> freelist (span st1 t) = 0 \<and> 0 < ref (span st1 t))"
      by simp
  qed
qed

lemma Alloc_moves:
  assumes "MCentral_Alloc st = Inr (v, st')" "v \<noteq> 0"
  shows "if freelist (span st' (hd (nonempty (central st)))) = 0
         then hd (nonempty (central st)) \<in> set (empty (central st')) \<and>
              hd (nonempty (central st)) \<notin> set (nonempty (central st'))
         else central st' = central st"
  using assms(1)
proof (cases rule: MCentral_Alloc_cases)
  case none
  with assms(2) show ?thesis by simp
next
  case (keep s rest)
  then show ?thesis by simp
next
  case (move s rest)
  then show ?thesis by simp
qed

lemma Free_moves:
  assumes "MCentral_Free G st v = Inr st'" "MHeap_Lookup G st v = Some s" "1 < ref (span st s)"
  shows "if freelist (span st s) = 0
         then s \<in> set (nonempty (central st')) \<and> s \<notin> set (empty (central st'))
         else nonempty (central st') = nonempty (central st) \<and>
              empty (central st') = empty (central st)"
  using assms(1)
proof (cases rule: MCentral_Free_cases)
  case (keep t)
  with assms(2) have "t = s" by simp
  with keep(4) show ?thesis by simp
next
  case (release t)
  with assms(2,3) show ?thesis by simp
qed

text \<open>
  Claim C1. In a state where list membership holds (and the collaborators are sound:
  the heap grants fresh spans, the size class has a sound geometry), every span of the
  central is in the nonempty list iff its free list is not \<^verbatim>\<open>nil\<close>, and in the empty
  list iff its free list is \<^verbatim>\<open>nil\<close> and its \<open>ref\<close> is positive; and this is so again
  after each of \<^verbatim>\<open>MCentral_Alloc\<close>, \<^verbatim>\<open>MCentral_Free\<close>, \<^verbatim>\<open>MCentral_Grow\<close>,
  \<^verbatim>\<open>MCentral_AllocList\<close> and \<^verbatim>\<open>MCentral_FreeList\<close>, whatever their arguments, so in
  every state in which the lock is released at the end of an operation.
  \<^verbatim>\<open>MCentral_Alloc\<close> moves the first nonempty span to the empty list in the very step
  that takes its last free object, and leaves the lists alone otherwise;
  \<^verbatim>\<open>MCentral_Free\<close> moves a span whose free list was \<^verbatim>\<open>nil\<close> to the nonempty list in
  the step that frees an object of it. The lock is also released around the two heap
  calls: membership holds after \<^verbatim>\<open>MHeap_Alloc\<close> (inside \<^verbatim>\<open>MCentral_Grow\<close>, before the
  new span is inserted), and \<^verbatim>\<open>MHeap_Free\<close> does not change it, so it holds before
  that call as it does after it.
\<close>

theorem C1_list_membership:
  assumes "membership_inv G st"
  shows "list_inv st \<and>
    (\<forall>v st'. MCentral_Alloc st = Inr (v, st') \<longrightarrow>
        membership_inv G st' \<and>
        (v \<noteq> 0 \<longrightarrow>
          (if freelist (span st' (hd (nonempty (central st)))) = 0
           then hd (nonempty (central st)) \<in> set (empty (central st')) \<and>
                hd (nonempty (central st)) \<notin> set (nonempty (central st'))
           else central st' = central st))) \<and>
    (\<forall>v st'. MCentral_Free G st v = Inr st' \<longrightarrow>
        membership_inv G st' \<and>
        (\<forall>s. MHeap_Lookup G st v = Some s \<and> 1 < ref (span st s) \<longrightarrow>
          (if freelist (span st s) = 0
           then s \<in> set (nonempty (central st')) \<and> s \<notin> set (empty (central st'))
           else nonempty (central st') = nonempty (central st) \<and>
                empty (central st') = empty (central st)))) \<and>
    (\<forall>ok st'. MCentral_Grow G st = Inr (ok, st') \<longrightarrow> membership_inv G st') \<and>
    (\<forall>n i first st'. MCentral_AllocList G st n = Inr (i, first, st') \<longrightarrow> membership_inv G st') \<and>
    (\<forall>n v st'. MCentral_FreeList G st n v = Inr st' \<longrightarrow> membership_inv G st') \<and>
    (\<forall>npgs sc s st1. MHeap_Alloc st npgs sc = Some (s, st1) \<longrightarrow> list_inv st1) \<and>
    (\<forall>x s. list_inv (MHeap_Free x s) = list_inv x)"
proof -
  from assms have li: "list_inv st" and hf: "heap_fresh st"
    by (simp_all add: membership_inv_def)
  have a: "\<forall>v st'. MCentral_Alloc st = Inr (v, st') \<longrightarrow>
        membership_inv G st' \<and>
        (v \<noteq> 0 \<longrightarrow>
          (if freelist (span st' (hd (nonempty (central st)))) = 0
           then hd (nonempty (central st)) \<in> set (empty (central st')) \<and>
                hd (nonempty (central st)) \<notin> set (nonempty (central st'))
           else central st' = central st))"
    using membership_Alloc [OF assms] Alloc_moves by blast
  have f: "\<forall>v st'. MCentral_Free G st v = Inr st' \<longrightarrow>
        membership_inv G st' \<and>
        (\<forall>s. MHeap_Lookup G st v = Some s \<and> 1 < ref (span st s) \<longrightarrow>
          (if freelist (span st s) = 0
           then s \<in> set (nonempty (central st')) \<and> s \<notin> set (empty (central st'))
           else nonempty (central st') = nonempty (central st) \<and>
                empty (central st') = empty (central st)))"
    using membership_Free [OF assms] Free_moves by blast
  have g: "\<forall>ok st'. MCentral_Grow G st = Inr (ok, st') \<longrightarrow> membership_inv G st'"
    using membership_Grow [OF assms] by blast
  have al: "\<forall>n i first st'. MCentral_AllocList G st n = Inr (i, first, st') \<longrightarrow> membership_inv G st'"
    using membership_AllocList [OF assms] by blast
  have fl: "\<forall>n v st'. MCentral_FreeList G st n v = Inr st' \<longrightarrow> membership_inv G st'"
    using membership_FreeList_loop [OF assms] by (simp add: MCentral_FreeList_def)
  have ha: "\<forall>npgs sc s st1. MHeap_Alloc st npgs sc = Some (s, st1) \<longrightarrow> list_inv st1"
    using list_inv_MHeap_Alloc [OF li hf] by blast
  have hfree: "\<forall>x s. list_inv (MHeap_Free x s) = list_inv x"
    by (simp add: list_inv_MHeap_Free)
  from li a f g al fl ha hfree show ?thesis by (intro conjI)
qed

lemma geom_ok_G0: "geom_ok G0 0"
  by (simp add: geom_ok_def G0_def)

lemma membership_W1: "membership_inv G0 W1"
  by (simp add: membership_inv_def list_inv_def heap_fresh_def owned_def W1_def geom_ok_G0)

lemma membership_W2: "membership_inv G0 W2"
  by (simp add: membership_inv_def list_inv_def heap_fresh_def owned_def W2_def geom_ok_G0)

theorem C1_list_membership_witness:
  "membership_inv G0 W1 \<and>
   (\<exists>st'. MCentral_Alloc W1 = Inr (112, st') \<and> list_inv st' \<and>
          1 \<in> set (empty (central st')) \<and> 1 \<notin> set (nonempty (central st'))) \<and>
   membership_inv G0 W2 \<and>
   (\<exists>st'. MCentral_Free G0 W2 64 = Inr st' \<and> list_inv st' \<and>
          1 \<in> set (nonempty (central st')) \<and> 1 \<notin> set (empty (central st')))"
proof -
  obtain s1 where a: "MCentral_Alloc W1 = Inr (112, s1)"
    by (simp add: MCentral_Alloc_def W1_def MSpanList_IsEmpty_def Let_def)
  have fl1: "freelist (span s1 1) = 0"
    using a by (auto simp: MCentral_Alloc_def W1_def MSpanList_IsEmpty_def Let_def)
  have hd1: "hd (nonempty (central W1)) = 1" by (simp add: W1_def)
  have look: "MHeap_Lookup G0 W2 64 = Some 1"
    by (simp add: MHeap_Lookup_def W2_def inspan_def base_def bytes_def G0_def)
  obtain s2 where f: "MCentral_Free G0 W2 64 = Inr s2"
    by (simp add: MCentral_Free_def look Let_def) (simp add: W2_def)
  have w2: "1 < ref (span W2 1)" "freelist (span W2 1) = 0" by (simp_all add: W2_def)
  from C1_list_membership [OF membership_W1] a fl1 hd1
  have "list_inv s1 \<and> 1 \<in> set (empty (central s1)) \<and> 1 \<notin> set (nonempty (central s1))"
    by (auto simp: membership_inv_def)
  moreover from C1_list_membership [OF membership_W2] f look w2
  have "list_inv s2 \<and> 1 \<in> set (nonempty (central s2)) \<and> 1 \<notin> set (empty (central s2))"
    by (auto simp: membership_inv_def)
  ultimately show ?thesis using a f membership_W1 membership_W2 by blast
qed

subsection \<open>Chains\<close>

lemma chain_unique: "chain m p xs \<Longrightarrow> chain m p ys \<Longrightarrow> xs = ys"
proof (induction xs arbitrary: p ys)
  case Nil
  then show ?case by (cases ys) auto
next
  case (Cons x xs)
  then show ?case by (cases ys) auto
qed

lemma chain_suffix: "chain m p (as @ b # bs) \<Longrightarrow> chain m b (b # bs)"
  by (induction as arbitrary: p) auto

lemma chain_hd_notin:
  assumes "chain m x (x # xs)"
  shows "x \<notin> set xs"
proof
  assume "x \<in> set xs"
  then obtain as bs where xs: "xs = as @ x # bs" by (auto simp: in_set_conv_decomp)
  with assms have "chain m (m x) (as @ x # bs)" by simp
  from chain_suffix [OF this] have "chain m x (x # bs)" .
  from chain_unique [OF this assms] xs show False by simp
qed

lemma chain_distinct: "chain m p xs \<Longrightarrow> distinct xs"
proof (induction xs arbitrary: p)
  case Nil
  then show ?case by simp
next
  case (Cons x xs)
  from Cons.prems have "chain m x (x # xs)" by simp
  from chain_hd_notin [OF this] Cons.IH [of "m x"] Cons.prems show ?case by simp
qed

lemma chain_nonzero: "chain m p xs \<Longrightarrow> 0 \<notin> set xs"
  by (induction xs arbitrary: p) auto

lemma chain_cong: "(\<And>x. x \<in> set xs \<Longrightarrow> m' x = m x) \<Longrightarrow> chain m' p xs = chain m p xs"
  by (induction xs arbitrary: p) auto

lemma chain_walk: "chain m p xs \<Longrightarrow> length xs \<le> k \<Longrightarrow> walk m k p = xs"
proof (induction xs arbitrary: p k)
  case Nil
  then show ?case by (cases k) auto
next
  case (Cons x xs)
  then obtain j where "k = Suc j" by (cases k) auto
  with Cons show ?case by auto
qed

subsection \<open>Looking spans up\<close>

lemma disjoint_ranges_append:
  "disjoint_ranges (xs @ ys) \<Longrightarrow> disjoint_ranges xs \<and> disjoint_ranges ys"
  by (induction xs) auto

lemma disjoint_ranges_map:
  "disjoint_ranges (map f xs) \<Longrightarrow> distinct xs \<Longrightarrow> a \<in> set xs \<Longrightarrow> b \<in> set xs \<Longrightarrow> a \<noteq> b \<Longrightarrow>
   snd (f a) \<le> fst (f b) \<or> snd (f b) \<le> fst (f a)"
  by (induction xs) auto

lemma disjoint_ranges_removeAll:
  "disjoint_ranges (map f xs @ ys) \<Longrightarrow> disjoint_ranges (map f (removeAll s xs) @ ys)"
  by (induction xs) auto

lemma inuse_disjoint:
  assumes "heap_ok G st" "s \<in> set (inuse st)" "t \<in> set (inuse st)" "s \<noteq> t"
    "inspan G (span st s) v"
  shows "\<not> inspan G (span st t) v"
proof -
  let ?f = "\<lambda>s. (base G (span st s), base G (span st s) + bytes G (span st s))"
  from assms(1) have "disjoint_ranges (map ?f (inuse st))" "distinct (inuse st)"
    by (auto simp: heap_ok_def ranges_def dest: disjoint_ranges_append)
  from disjoint_ranges_map [OF this assms(2,3,4)] assms(5) show ?thesis
    by (auto simp: inspan_def)
qed

lemma find_unique:
  assumes "x \<in> set xs" "P x" "\<And>y. y \<in> set xs \<Longrightarrow> P y \<Longrightarrow> y = x"
  shows "find P xs = Some x"
proof (cases "find P xs")
  case None
  with assms(1,2) show ?thesis by (simp add: find_None_iff)
next
  case (Some y)
  from find_Some_set [OF Some] have "y \<in> set xs" "P y" by simp_all
  from assms(3) [OF this] Some show ?thesis by simp
qed

lemma find_None_removeAll: "find P xs = None \<Longrightarrow> find P (removeAll s xs) = None"
  by (induction xs) (auto split: if_splits)

lemma MHeap_Lookup_inuse:
  assumes "heap_ok G st" "s \<in> set (inuse st)" "inspan G (span st s) v"
  shows "MHeap_Lookup G st v = Some s"
  unfolding MHeap_Lookup_def
proof (rule find_unique [OF assms(2)])
  show "inspan G (span st s) v" by (rule assms(3))
next
  fix t
  assume "t \<in> set (inuse st)" "inspan G (span st t) v"
  with inuse_disjoint [OF assms(1,2) _ _ assms(3), of t] show "t = s" by blast
qed

lemma heap_ok_Free:
  assumes "heap_ok G st" "MCentral_Free G st v = Inr st'"
  shows "heap_ok G st'"
  using assms(2)
proof (cases rule: MCentral_Free_cases)
  case (keep s)
  have "ranges G st' = ranges G st"
    using keep(4,6,7,8) by (auto simp: ranges_def)
  with assms(1) keep(7,8) show ?thesis by (simp add: heap_ok_def)
next
  case (release s)
  let ?f = "\<lambda>s. (base G (span st s), base G (span st s) + bytes G (span st s))"
  let ?ys = "map (\<lambda>(s, p). (p * 2 ^ PageShift G,
                      p * 2 ^ PageShift G +
                        class_to_allocnpages G (sizeclass (central st)) * 2 ^ PageShift G))
         (freespans st)"
  have "ranges G st' = map ?f (removeAll s (inuse st)) @ ?ys"
    using release(5,7,8,9) by (auto simp: ranges_def)
  moreover from assms(1) have "disjoint_ranges (map ?f (inuse st) @ ?ys)"
    by (simp add: heap_ok_def ranges_def)
  ultimately have "disjoint_ranges (ranges G st')"
    by (simp add: disjoint_ranges_removeAll)
  moreover from assms(1) have "distinct (removeAll s (inuse st) @ map fst (freespans st))"
    by (auto simp: heap_ok_def distinct_removeAll)
  ultimately show ?thesis using assms(1) release(8,9) by (simp add: heap_ok_def)
qed

text \<open>An address that no span in use holds stays so; a released span holds none.\<close>

lemma Lookup_None_Free:
  assumes "MCentral_Free G st v = Inr st'" "MHeap_Lookup G st w = None"
  shows "MHeap_Lookup G st' w = None"
  using assms(1)
proof (cases rule: MCentral_Free_cases)
  case (keep s)
  have "(\<lambda>t. inspan G (span st' t) w) = (\<lambda>t. inspan G (span st t) w)"
    using keep(6) by (auto simp: fun_eq_iff)
  with assms(2) keep(7) show ?thesis by (simp add: MHeap_Lookup_def)
next
  case (release s)
  have "(\<lambda>t. inspan G (span st' t) w) = (\<lambda>t. inspan G (span st t) w)"
    using release(7) by (auto simp: fun_eq_iff)
  with assms(2) release(8) show ?thesis
    by (simp add: MHeap_Lookup_def find_None_removeAll)
qed

lemma find_None_iff2: "(find P xs = None) = (\<forall>x \<in> set xs. \<not> P x)"
  by (induction xs) auto

lemma Lookup_released:
  assumes "heap_ok G st" "MCentral_Free G st v = Inr st'" "MHeap_Lookup G st v = Some s"
    "ref (span st s) = 1" "inspan G (span st s) w"
  shows "MHeap_Lookup G st' w = None"
  using assms(2)
proof (cases rule: MCentral_Free_cases)
  case (keep t)
  with assms(3,4) show ?thesis by simp
next
  case (release t)
  with assms(3) have ts: "t = s" by simp
  from assms(3) have s_in: "s \<in> set (inuse st)" by (simp add: MHeap_Lookup_Some)
  have "\<forall>u \<in> set (inuse st'). \<not> inspan G (span st' u) w"
  proof
    fix u
    assume "u \<in> set (inuse st')"
    with release(8) ts have u: "u \<in> set (inuse st)" "u \<noteq> s" by auto
    from inuse_disjoint [OF assms(1) s_in u(1) _ assms(5)] u(2)
    have "\<not> inspan G (span st u) w" by blast
    with release(7) ts u(2) show "\<not> inspan G (span st' u) w" by simp
  qed
  then show ?thesis by (simp add: MHeap_Lookup_def find_None_iff2)
qed

subsection \<open>Returning a span to the heap\<close>

lemma Lookup_not_inuse: "s \<notin> set (inuse st) \<Longrightarrow> MHeap_Lookup G st w \<noteq> Some s"
  by (auto dest: MHeap_Lookup_Some)

text \<open>
  Claim C6. \<^verbatim>\<open>MCentral_Free\<close> returns the span of the object to the page heap exactly
  when the object was the last one allocated in it (\<open>ref\<close> goes from 1 to 0). In that
  step the span leaves the lists of the central, the first word of the span is set to
  the sentinel 1, the free-list head is cleared, and the counter, raised by one for the
  object, is lowered by the object count of the span,
  \<open>(npages * 2 ^ PageShift) div size\<close>. The heap no longer finds the span for any
  address afterwards, so no later free can return it again. In every other step the
  span stays in use and in the lists, the memory changes at the freed object only (no
  sentinel), the head is the freed object, and the counter is raised by one.
\<close>

theorem C6_span_returned_at_last_free:
  assumes "MCentral_Free G st v = Inr st'" "MHeap_Lookup G st v = Some s"
  shows "(s \<notin> set (inuse st')) = (ref (span st s) = 1) \<and>
    (if ref (span st s) = 1
     then inuse st' = removeAll s (inuse st) \<and>
          s \<notin> set (owned st') \<and>
          mem st' (start (span st s) * 2 ^ PageShift G) = 1 \<and>
          freelist (span st' s) = 0 \<and> ref (span st' s) = 0 \<and>
          nfree (central st') = nfree (central st) + 1 -
             int (npages (span st s) * 2 ^ PageShift G div
                  class_to_size G (sizeclass (central st))) \<and>
          (\<forall>w. MHeap_Lookup G st' w \<noteq> Some s)
     else inuse st' = inuse st \<and>
          set (owned st) \<subseteq> set (owned st') \<and>
          mem st' = (mem st)(v := freelist (span st s)) \<and>
          freelist (span st' s) = v \<and> ref (span st' s) = ref (span st s) - 1 \<and>
          nfree (central st') = nfree (central st) + 1)"
  using assms(1)
proof (cases rule: MCentral_Free_cases)
  case (keep t)
  with assms(2) have ts: "t = s" by simp
  from assms(2) have s_in: "s \<in> set (inuse st)" by (simp add: MHeap_Lookup_Some)
  have "set (owned st) \<subseteq> set (owned st')"
    using keep(4) by (auto simp: owned_def)
  with keep ts s_in show ?thesis by auto
next
  case (release t)
  with assms(2) have ts: "t = s" by simp
  have notin: "s \<notin> set (inuse st')" using release(8) ts by simp
  have "s \<notin> set (owned st')" using release(5) ts by (simp add: owned_def)
  moreover have "\<forall>w. MHeap_Lookup G st' w \<noteq> Some s"
    using Lookup_not_inuse [OF notin] by blast
  ultimately show ?thesis
    using release ts notin by (simp add: base_def bytes_def)
qed

lemma Lookup_W3: "MHeap_Lookup G0 W3 64 = Some 1"
  by (simp add: MHeap_Lookup_def W3_def inspan_def base_def bytes_def G0_def)

theorem C6_span_returned_witness:
  "MHeap_Lookup G0 W3 64 = Some 1 \<and>
   (\<exists>st'. MCentral_Free G0 W3 64 = Inr st' \<and> 1 \<notin> set (inuse st') \<and>
          1 \<notin> set (owned st') \<and> mem st' 64 = 1 \<and> nfree (central st') = 0)"
proof -
  obtain s1 where f: "MCentral_Free G0 W3 64 = Inr s1"
    unfolding MCentral_Free_def Lookup_W3 by (simp add: Let_def W3_def G0_def)
  have r: "ref (span W3 1) = 1" "start (span W3 1) = 1" "npages (span W3 1) = 1"
    "nfree (central W3) = 3" "sizeclass (central W3) = 0"
    by (simp_all add: W3_def)
  from C6_span_returned_at_last_free [OF f Lookup_W3] r
  have "1 \<notin> set (inuse s1) \<and> 1 \<notin> set (owned s1) \<and> mem s1 64 = 1 \<and> nfree (central s1) = 0"
    by (simp add: G0_def)
  with f Lookup_W3 show ?thesis by blast
qed

subsection \<open>A batch free is a sequence of single frees\<close>

lemma FreeList_loop_free_each:
  assumes "heap_ok G st" "chain m0 v xs"
    "\<And>y. y \<in> set xs \<Longrightarrow> mem st y = m0 y \<or> MHeap_Lookup G st y = None"
  shows "FreeList_loop G st v = free_each G st xs"
  using assms
proof (induction xs arbitrary: st v)
  case Nil
  then show ?case by (simp add: FreeList_loop.simps)
next
  case (Cons x xs)
  from Cons.prems(2) have vx: "v = x" and x0: "x \<noteq> 0" and ch: "chain m0 (m0 x) xs"
    by simp_all
  from Cons.prems(2) vx have "chain m0 x (x # xs)" by simp
  then have x_notin: "x \<notin> set xs" by (rule chain_hd_notin)
  show ?case
  proof (cases "MCentral_Free G st x")
    case (Inl e)
    with vx x0 show ?thesis by (simp add: FreeList_loop.simps [of G st])
  next
    case (Inr st')
    then have "MHeap_Lookup G st x \<noteq> None"
      by (auto elim: MCentral_Free_cases)
    with Cons.prems(3) [of x] have mx: "mem st x = m0 x" by simp
    have ok': "heap_ok G st'" by (rule heap_ok_Free [OF Cons.prems(1) Inr])
    have rest: "\<And>y. y \<in> set xs \<Longrightarrow> mem st' y = m0 y \<or> MHeap_Lookup G st' y = None"
    proof -
      fix y
      assume y: "y \<in> set xs"
      with x_notin have yx: "y \<noteq> x" by auto
      from Cons.prems(3) [of y] y
      have old: "mem st y = m0 y \<or> MHeap_Lookup G st y = None" by simp
      from Inr show "mem st' y = m0 y \<or> MHeap_Lookup G st' y = None"
      proof (cases rule: MCentral_Free_cases)
        case (keep s)
        from keep(5) yx have "mem st' y = mem st y" by simp
        with old Lookup_None_Free [OF Inr] show ?thesis by auto
      next
        case (release s)
        show ?thesis
        proof (cases "y = base G (span st s)")
          case True
          from release(1) have "inspan G (span st s) x" by (simp add: MHeap_Lookup_Some)
          then have "inspan G (span st s) y" using True by (simp add: inspan_def)
          from Lookup_released [OF Cons.prems(1) Inr release(1,2) this] show ?thesis by simp
        next
          case False
          with release(6) yx have "mem st' y = mem st y" by simp
          with old Lookup_None_Free [OF Inr] show ?thesis by auto
        qed
      qed
    qed
    from Cons.IH [OF ok' ch rest] Inr vx x0 mx show ?thesis
      by (simp add: FreeList_loop.simps [of G st] Let_def)
  qed
qed

text \<open>
  Claim C10. The result of \<^verbatim>\<open>MCentral_FreeList\<close> does not depend on its count \<open>n\<close>.
  Where the chain from \<open>v\<close> visits the objects \<open>xs\<close> and ends in \<^verbatim>\<open>nil\<close> (and the
  spans in use do not overlap), the result is that of freeing the objects of \<open>xs\<close> one
  at a time, in this order, with \<^verbatim>\<open>MCentral_Free\<close>: the same final state, or the same
  fatal stop in the same state.
\<close>

theorem C10_FreeList_is_free_each:
  "MCentral_FreeList G st n v = MCentral_FreeList G st n' v \<and>
   (heap_ok G st \<and> chain (mem st) v xs \<longrightarrow> MCentral_FreeList G st n v = free_each G st xs)"
proof -
  have "heap_ok G st \<Longrightarrow> chain (mem st) v xs \<Longrightarrow> FreeList_loop G st v = free_each G st xs"
    by (rule FreeList_loop_free_each [where ?m0.0 = "mem st"]) simp_all
  then show ?thesis by (simp add: MCentral_FreeList_def)
qed


lemma heap_ok_W1: "heap_ok G0 W1"
  by (simp add: heap_ok_def ranges_def W1_def G0_def base_def bytes_def)

theorem C10_FreeList_is_free_each_witness:
  "heap_ok G0 W1 \<and> chain (mem W1) 64 [64, 80, 96] \<and>
   MCentral_FreeList G0 W1 7 64 = free_each G0 W1 [64, 80, 96]"
proof -
  have c: "chain (mem W1) 64 [64, 80, 96]" by (simp add: W1_def)
  from C10_FreeList_is_free_each [of G0 W1 7 64 7 "[64, 80, 96]"] heap_ok_W1 c
  show ?thesis by simp
qed

subsection \<open>The two failure paths\<close>


lemma AllocList_loop_ge:
  "AllocList_loop st n i lastp = Inr (i', st', lastp') \<Longrightarrow> i \<le> i'"
proof (induction st n i lastp rule: AllocList_loop.induct)
  case (1 st n i lastp)
  show ?case
  proof (cases "i < n")
    case False
    with "1.prems" show ?thesis by (simp add: AllocList_loop.simps)
  next
    case True
    note lt = this
    show ?thesis
    proof (cases "MCentral_Alloc st")
      case (Inl e)
      with lt "1.prems" show ?thesis by (simp add: AllocList_loop.simps [of st])
    next
      case (Inr r)
      obtain v st1 where r: "r = (v, st1)" by (cases r)
      show ?thesis
      proof (cases "v = 0")
        case True
        with lt Inr r "1.prems" show ?thesis by (simp add: AllocList_loop.simps [of st])
      next
        case False
        with lt Inr r "1.prems"
        have "AllocList_loop (st1\<lparr>mem := (mem st1)(lastp := v)\<rparr>) n (i + 1) v = Inr (i', st', lastp')"
          by (simp add: AllocList_loop.simps [of st])
        from "1.IH" [OF lt Inr r [symmetric] False this] show ?thesis by simp
      qed
    qed
  qed
qed

lemma MCentral_Grow_False:
  "(MCentral_Grow G st = Inr (False, st')) =
   (st' = st \<and> class_to_size G (sizeclass (central st)) \<noteq> 0 \<and>
    MHeap_Alloc st (class_to_allocnpages G (sizeclass (central st))) (sizeclass (central st)) = None)"
  by (auto simp: MCentral_Grow_def MGetSizeClassInfo_def Let_def split: option.splits prod.splits if_splits)

text \<open>
  Claim C4. \<^verbatim>\<open>MCentral_AllocList\<close> returns the out-of-memory signal, a zero count or a
  \<^verbatim>\<open>nil\<close> chain, exactly when the nonempty list is empty on entry and the page heap
  grants no span to \<^verbatim>\<open>MCentral_Grow\<close>. The signal is then both at once, count 0 and
  chain \<^verbatim>\<open>nil\<close>, and the state returned is the state on entry: the lists and the
  counter are untouched and the heap was asked once.
\<close>

theorem C4_out_of_memory_signal:
  "(MCentral_AllocList G st n = Inr (i, first, st') \<and> (i = 0 \<or> first = 0)) =
   (i = 0 \<and> first = 0 \<and> st' = st \<and> nonempty (central st) = [] \<and>
    class_to_size G (sizeclass (central st)) \<noteq> 0 \<and>
    MHeap_Alloc st (class_to_allocnpages G (sizeclass (central st))) (sizeclass (central st)) = None)"
  (is "?L = ?R")
proof
  assume R: ?R
  then have "replenish G st = Inr (False, st)"
    using MCentral_Grow_False [of G st st] by (simp add: replenish_def MSpanList_IsEmpty_def)
  with R show ?L by (simp add: MCentral_AllocList_def)
next
  assume L: ?L
  show ?R
  proof (cases "replenish G st")
    case (Inl e)
    with L show ?thesis by (simp add: MCentral_AllocList_def)
  next
    case (Inr r)
    obtain ok st0 where r: "r = (ok, st0)" by (cases r)
    show ?thesis
    proof (cases ok)
      case False
      with Inr r have g: "MCentral_Grow G st = Inr (False, st0)" and ne: "nonempty (central st) = []"
        by (auto simp: replenish_def MSpanList_IsEmpty_def split: if_splits)
      from L Inr r False have "i = 0" "first = 0" "st' = st0"
        by (auto simp: MCentral_AllocList_def)
      with g ne show ?thesis by (simp add: MCentral_Grow_False)
    next
      case True
      with L Inr r obtain f2 st2 i3 st3 l3 where
        "MCentral_Alloc st0 = Inr (f2, st2)" "f2 \<noteq> 0"
        "AllocList_loop st2 n 1 f2 = Inr (i3, st3, l3)" "i = i3" "first = f2"
        by (auto simp: MCentral_AllocList_def Let_def split: sum.splits prod.splits if_splits)
      with AllocList_loop_ge [of st2 n 1 f2 i3 st3 l3] L show ?thesis by auto
    qed
  qed
qed

text \<open>
  Claim C5. \<^verbatim>\<open>MCentral_Free\<close> stops with "invalid free" exactly when the heap finds no
  span for the address or the span found has no object allocated, and it stops in the
  state it was called in. \<^verbatim>\<open>MCentral_FreeList\<close> frees the objects of the chain one by
  one, so it stops in the same way at the first object of that kind.
\<close>

theorem C5_invalid_free_fatal:
  "(\<forall>st'. (MCentral_Free G st v = Inl (InvalidFree, st')) =
          ((case MHeap_Lookup G st v of None \<Rightarrow> True | Some s \<Rightarrow> ref (span st s) = 0) \<and> st' = st)) \<and>
   MCentral_FreeList G st n v =
     (if v = 0 then Inr st
      else if (case MHeap_Lookup G st v of None \<Rightarrow> True | Some s \<Rightarrow> ref (span st s) = 0)
           then Inl (InvalidFree, st)
      else (case MCentral_Free G st v of Inl e \<Rightarrow> Inl e
            | Inr st' \<Rightarrow> MCentral_FreeList G st' n (mem st v)))"
proof -
  have a: "\<And>st'. (MCentral_Free G st v = Inl (InvalidFree, st')) =
          ((case MHeap_Lookup G st v of None \<Rightarrow> True | Some s \<Rightarrow> ref (span st s) = 0) \<and> st' = st)"
    by (auto simp: MCentral_Free_def Let_def split: option.splits)
  have b: "MCentral_FreeList G st n v =
     (if v = 0 then Inr st
      else (case MCentral_Free G st v of Inl e \<Rightarrow> Inl e
            | Inr st' \<Rightarrow> MCentral_FreeList G st' n (mem st v)))"
    unfolding MCentral_FreeList_def
    by (subst FreeList_loop.simps) (simp add: Let_def)
  have c: "(case MHeap_Lookup G st v of None \<Rightarrow> True | Some s \<Rightarrow> ref (span st s) = 0) \<Longrightarrow>
           MCentral_Free G st v = Inl (InvalidFree, st)"
    using a [of st] by simp
  show ?thesis
    by (subst b) (auto simp: a c)
qed

subsection \<open>Well-formed spans\<close>

lemma walk_cong: "(\<And>x. x \<in> set (walk m k p) \<Longrightarrow> m' x = m x) \<Longrightarrow> walk m' k p = walk m k p"
proof (induction k arbitrary: p)
  case 0
  then show ?case by simp
next
  case (Suc k)
  show ?case
  proof (cases "p = 0")
    case True
    then show ?thesis by simp
  next
    case False
    with Suc.prems [of p] have mp: "m' p = m p" by simp
    have "walk m' k (m p) = walk m k (m p)"
    proof (rule Suc.IH)
      fix x
      assume "x \<in> set (walk m k (m p))"
      with False show "m' x = m x" by (intro Suc.prems) simp
    qed
    with False mp show ?thesis by simp
  qed
qed

lemma pool_invD:
  assumes "pool_inv G st"
  shows "geom_ok G (sizeclass (central st))" "distinct (owned st)"
    "set (owned st) \<subseteq> set (inuse st)" "heap_ok G st"
    "\<And>s. s \<in> set (owned st) \<Longrightarrow> span_ok G st s"
  using assms unfolding pool_inv_def by blast+

lemma span_okD:
  assumes "span_ok G st s"
  shows "chain (mem st) (freelist (span st s)) (flist G st s)"
    "set (flist G st s) \<subseteq> set (slots G st s)"
    "ref (span st s) + length (flist G st s) = nobj G st s"
    "npages (span st s) = class_to_allocnpages G (sizeclass (central st))"
    "0 < start (span st s)"
    "(s \<in> set (nonempty (central st))) = (freelist (span st s) \<noteq> 0)"
  using assms unfolding span_ok_def by blast+

lemma slots_inspan:
  assumes "0 < class_to_size G (sizeclass (central st))" "x \<in> set (slots G st s)"
  shows "inspan G (span st s) x"
proof -
  let ?sz = "class_to_size G (sizeclass (central st))"
  from slots_from_bounds [OF assms(2) [unfolded slots_def]]
  have lo: "base G (span st s) \<le> x" and hi: "x + ?sz \<le> base G (span st s) + nobj G st s * ?sz"
    by simp_all
  have "nobj G st s * ?sz \<le> bytes G (span st s)"
    by (simp add: nobj_def)
  with lo hi assms(1) show ?thesis by (simp add: inspan_def)
qed

lemma distinct_slots: "0 < class_to_size G (sizeclass (central st)) \<Longrightarrow> distinct (slots G st s)"
  by (simp add: slots_def distinct_slots_from)

lemma length_slots [simp]: "length (slots G st s) = nobj G st s"
  by (simp add: slots_def)

text \<open>Free objects of a well-formed central: in their span, of one span only.\<close>

lemma flist_inspan:
  assumes "pool_inv G st" "s \<in> set (owned st)" "x \<in> set (flist G st s)"
  shows "inspan G (span st s) x"
proof -
  from pool_invD(1) [OF assms(1)] have "0 < class_to_size G (sizeclass (central st))"
    by (simp add: geom_ok_def)
  moreover from span_okD(2) [OF pool_invD(5) [OF assms(1,2)]] assms(3)
  have "x \<in> set (slots G st s)" by blast
  ultimately show ?thesis by (rule slots_inspan)
qed

lemma owned_disjoint:
  assumes "pool_inv G st" "s \<in> set (owned st)" "t \<in> set (owned st)" "s \<noteq> t"
    "inspan G (span st s) x"
  shows "\<not> inspan G (span st t) x"
  using inuse_disjoint [OF pool_invD(4) [OF assms(1)] _ _ assms(4,5)] pool_invD(3) [OF assms(1)]
    assms(2,3) by blast

lemma flist_other:
  assumes "pool_inv G st" "s \<in> set (owned st)" "t \<in> set (owned st)" "s \<noteq> t"
    "inspan G (span st s) x"
  shows "x \<notin> set (flist G st t)"
  using owned_disjoint [OF assms] flist_inspan [OF assms(1,3)] by blast

lemma flist_distinct:
  assumes "pool_inv G st" "s \<in> set (owned st)"
  shows "distinct (flist G st s)"
  using span_okD(1) [OF pool_invD(5) [OF assms]] by (rule chain_distinct)

lemma nobj_owned:
  assumes "pool_inv G st" "s \<in> set (owned st)"
  shows "nobj G st s = class_to_allocnpages G (sizeclass (central st)) * 2 ^ PageShift G div
           class_to_size G (sizeclass (central st))"
  using span_okD(4) [OF pool_invD(5) [OF assms]] by (simp add: nobj_def bytes_def)

lemma flist_length_le:
  assumes "pool_inv G st" "s \<in> set (owned st)"
  shows "length (flist G st s) \<le> nobj G st s"
  using span_okD(3) [OF pool_invD(5) [OF assms]] by simp

text \<open>The free list does not change where neither the span nor its links do.\<close>

lemma flist_frame:
  assumes "freelist (span st' s) = freelist (span st s)" "nobj G st' s = nobj G st s"
    "\<And>x. x \<in> set (flist G st s) \<Longrightarrow> mem st' x = mem st x"
  shows "flist G st' s = flist G st s"
  unfolding flist_def assms(1,2)
  by (rule walk_cong) (use assms(3) in \<open>simp add: flist_def\<close>)

lemma span_ok_frame:
  assumes "span st' s = span st s" "sizeclass (central st') = sizeclass (central st)"
    "(s \<in> set (nonempty (central st'))) = (s \<in> set (nonempty (central st)))"
    "\<And>x. x \<in> set (flist G st s) \<Longrightarrow> mem st' x = mem st x"
    "span_ok G st s"
  shows "span_ok G st' s"
proof -
  have n: "nobj G st' s = nobj G st s" using assms(1,2) by (simp add: nobj_def)
  have fl: "flist G st' s = flist G st s"
    by (rule flist_frame) (use assms(1,4) n in simp_all)
  have sl: "slots G st' s = slots G st s" using assms(1,2) n by (simp add: slots_def)
  have "chain (mem st') (freelist (span st s)) (flist G st s) =
        chain (mem st) (freelist (span st s)) (flist G st s)"
    by (rule chain_cong) (rule assms(4))
  with assms(5) show ?thesis
    unfolding span_ok_def fl sl n assms(1,2,3) by simp
qed

text \<open>Counting the free objects span by span.\<close>

lemma length_concat_distinct:
  "distinct xs \<Longrightarrow> length (concat (map f xs)) = (\<Sum>x \<in> set xs. length (f x))"
  by (induction xs) auto

lemma length_allfree:
  "distinct (owned st) \<Longrightarrow> length (allfree G st) = (\<Sum>s \<in> set (owned st). length (flist G st s))"
  by (simp add: allfree_def length_concat_distinct)

lemma set_allfree: "set (allfree G st) = (\<Union>s \<in> set (owned st). set (flist G st s))"
  by (simp add: allfree_def)

lemma slots_cong:
  assumes "start (span st' t) = start (span st t)" "npages (span st' t) = npages (span st t)"
    "sizeclass (central st') = sizeclass (central st)"
  shows "slots G st' t = slots G st t"
  using assms by (simp add: slots_def nobj_def base_def bytes_def)

subsection \<open>One allocation in a well-formed central\<close>

lemma MCentral_Alloc_Inr:
  assumes "nonempty (central st) = s # rest" "freelist (span st s) \<noteq> 0"
  shows "\<exists>st'. MCentral_Alloc st = Inr (freelist (span st s), st')"
  using assms by (simp add: MCentral_Alloc_def MSpanList_IsEmpty_def Let_def)

lemma owned_nonempty: "s \<in> set (nonempty (central st)) \<Longrightarrow> s \<in> set (owned st)"
  by (simp add: owned_def)

lemma ranges_frame:
  assumes "\<And>s. start (span st' s) = start (span st s)"
    "\<And>s. npages (span st' s) = npages (span st s)"
    "inuse st' = inuse st" "freespans st' = freespans st"
    "sizeclass (central st') = sizeclass (central st)"
  shows "ranges G st' = ranges G st"
  using assms by (simp add: ranges_def base_def bytes_def)

lemma heap_ok_frame:
  assumes "\<And>s. start (span st' s) = start (span st s)"
    "\<And>s. npages (span st' s) = npages (span st s)"
    "inuse st' = inuse st" "freespans st' = freespans st"
    "sizeclass (central st') = sizeclass (central st)"
  shows "heap_ok G st' = heap_ok G st"
  using ranges_frame [OF assms, of G] assms(3,4) by (simp add: heap_ok_def)

lemma Alloc_pool:
  assumes PI: "pool_inv G st" and ne: "nonempty (central st) = s # rest"
  obtains v st' where "MCentral_Alloc st = Inr (v, st')" "v \<noteq> 0"
    "flist G st s = v # flist G st' s" "pool_inv G st'"
    "mem st' = mem st" "inuse st' = inuse st" "freespans st' = freespans st"
    "nfree (central st') = nfree (central st)"
    "sizeclass (central st') = sizeclass (central st)"
    "set (owned st') = set (owned st)"
    "span st' = (span st)(s := (span st s)\<lparr>freelist := mem st v, ref := ref (span st s) + 1\<rparr>)"
    "\<And>t. t \<noteq> s \<Longrightarrow> flist G st' t = flist G st t"
    "nonempty (central st') = (if flist G st' s = [] then rest else s # rest)"
proof -
  from ne have s_ne: "s \<in> set (nonempty (central st))" by simp
  then have s_own: "s \<in> set (owned st)" by (rule owned_nonempty)
  note ok = pool_invD(5) [OF PI s_own]
  define v where "v = freelist (span st s)"
  from span_okD(6) [OF ok] s_ne have v0: "v \<noteq> 0" by (simp add: v_def)
  from span_okD(1) [OF ok] v0 obtain fl where
    fl: "flist G st s = v # fl" and ch: "chain (mem st) (mem st v) fl"
    unfolding v_def [symmetric] by (cases "flist G st s") auto
  from MCentral_Alloc_Inr [OF ne] v0 obtain st' where al: "MCentral_Alloc st = Inr (v, st')"
    by (auto simp: v_def)
  have dist: "distinct (nonempty (central st) @ empty (central st))"
    using pool_invD(2) [OF PI] by (simp add: owned_def)
  with ne have s_rest: "s \<notin> set rest" and s_em: "s \<notin> set (empty (central st))" by auto
  have fl0: "(fl = []) = (mem st v = 0)" using ch by (cases fl) auto
  from al have facts:
    "span st' = (span st)(s := (span st s)\<lparr>freelist := mem st v, ref := ref (span st s) + 1\<rparr>)"
    "mem st' = mem st" "inuse st' = inuse st" "freespans st' = freespans st"
    "nfree (central st') = nfree (central st)"
    "sizeclass (central st') = sizeclass (central st)"
    "nonempty (central st') = (if mem st v = 0 then rest else s # rest)"
    "empty (central st') = (if mem st v = 0 then s # empty (central st) else empty (central st))"
    using ne s_rest s_em by (auto elim!: MCentral_Alloc_cases)
  have nob: "\<And>t. nobj G st' t = nobj G st t"
    using facts(1,6) by (simp add: nobj_def)
  have sl: "\<And>t. slots G st' t = slots G st t"
    using facts(1,6) nob by (simp add: slots_def)
  have fl_s: "flist G st' s = fl"
  proof -
    from flist_length_le [OF PI s_own] fl have "length fl \<le> nobj G st s" by simp
    from chain_walk [OF ch this] show ?thesis
      by (simp add: flist_def facts(1,2) nob)
  qed
  have fl_t: "\<And>t. t \<noteq> s \<Longrightarrow> flist G st' t = flist G st t"
    by (simp add: flist_def facts(1,2) nob)
  have own: "set (owned st') = set (owned st)"
    using facts(7,8) ne by (auto simp: owned_def)
  have dist': "distinct (owned st')"
    using facts(7,8) ne dist by (auto simp: owned_def)
  have hp: "heap_ok G st'"
    using pool_invD(4) [OF PI] heap_ok_frame [of st' st G] facts by simp
  have sp_ok: "\<And>t. t \<in> set (owned st') \<Longrightarrow> span_ok G st' t"
  proof -
    fix t
    assume "t \<in> set (owned st')"
    with own have t_own: "t \<in> set (owned st)" by simp
    show "span_ok G st' t"
    proof (cases "t = s")
      case True
      from span_okD [OF ok] fl have
        "set fl \<subseteq> set (slots G st s)" "ref (span st s) + 1 + length fl = nobj G st s"
        "npages (span st s) = class_to_allocnpages G (sizeclass (central st))"
        "0 < start (span st s)"
        by simp_all
      with ch fl0 s_rest show ?thesis
        unfolding True span_ok_def fl_s sl nob
        by (simp add: facts)
    next
      case False
      have m: "(t \<in> set (nonempty (central st'))) = (t \<in> set (nonempty (central st)))"
        using facts(7) ne False by simp
      have e: "span st' t = span st t" using facts(1) False by simp
      show ?thesis
        by (rule span_ok_frame [OF e facts(6) m _ pool_invD(5) [OF PI t_own]])
           (simp add: facts(2))
    qed
  qed
  have PI': "pool_inv G st'"
    unfolding pool_inv_def
    using pool_invD(1,3) [OF PI] dist' own hp sp_ok facts(3,6) by simp
  show ?thesis
  proof (rule that [OF al v0 _ PI' facts(2,3,4,5,6) own facts(1) fl_t])
    show "flist G st s = v # flist G st' s" using fl fl_s by simp
    show "nonempty (central st') = (if flist G st' s = [] then rest else s # rest)"
      using facts(7) fl0 fl_s by simp
  qed
qed

lemma flist_nonempty:
  assumes "pool_inv G st" "s \<in> set (nonempty (central st))"
  shows "flist G st s \<noteq> []"
proof -
  note ok = pool_invD(5) [OF assms(1) owned_nonempty [OF assms(2)]]
  from span_okD(6) [OF ok] assms(2) have "freelist (span st s) \<noteq> 0" by simp
  with span_okD(1) [OF ok] show ?thesis by (cases "flist G st s") auto
qed

lemma flist_empty:
  assumes "pool_inv G st" "s \<in> set (empty (central st))"
  shows "flist G st s = []"
proof -
  from assms(2) have own: "s \<in> set (owned st)" by (simp add: owned_def)
  note ok = pool_invD(5) [OF assms(1) own]
  from pool_invD(2) [OF assms(1)] assms(2) have "s \<notin> set (nonempty (central st))"
    by (auto simp: owned_def)
  with span_okD(6) [OF ok] have "freelist (span st s) = 0" by simp
  with span_okD(1) [OF ok] show ?thesis by (cases "flist G st s") auto
qed

lemma avail_Nil:
  assumes "pool_inv G st"
  shows "(avail G st = []) = (nonempty (central st) = [])"
proof (cases "nonempty (central st)")
  case Nil
  then show ?thesis by (simp add: avail_def)
next
  case (Cons s rest)
  with flist_nonempty [OF assms, of s] show ?thesis by (simp add: avail_def)
qed

lemma set_avail:
  assumes "pool_inv G st"
  shows "set (avail G st) = set (allfree G st)"
proof -
  have "(\<Union>s \<in> set (empty (central st)). set (flist G st s)) = {}"
    using flist_empty [OF assms] by simp
  then show ?thesis by (simp add: avail_def allfree_def owned_def)
qed

lemma Alloc_pool_free:
  assumes PI: "pool_inv G st" and ne: "nonempty (central st) = s # rest"
    and fl: "flist G st s = v # flist G st' s"
    and own: "set (owned st') = set (owned st)"
    and oth: "\<And>t. t \<noteq> s \<Longrightarrow> flist G st' t = flist G st t"
    and ne': "nonempty (central st') = (if flist G st' s = [] then rest else s # rest)"
    and d': "distinct (owned st')"
  shows "avail G st = v # avail G st'" "inspan G (span st s) v"
    "set (allfree G st') = set (allfree G st) - {v}"
    "length (allfree G st) = Suc (length (allfree G st'))"
    "v \<in> set (allfree G st)"
proof -
  from ne have s_own: "s \<in> set (owned st)" by (simp add: owned_def)
  have dist: "distinct (nonempty (central st) @ empty (central st))"
    using pool_invD(2) [OF PI] by (simp add: owned_def)
  with ne have s_rest: "s \<notin> set rest" by auto
  have "map (flist G st') rest = map (flist G st) rest"
  proof (rule map_cong [OF refl])
    fix t
    assume "t \<in> set rest"
    with s_rest have "t \<noteq> s" by blast
    then show "flist G st' t = flist G st t" by (rule oth)
  qed
  then have "concat (map (flist G st') rest) = concat (map (flist G st) rest)"
    by (rule arg_cong)
  then show "avail G st = v # avail G st'"
    unfolding avail_def ne ne' using fl by simp
  from fl have v_in: "v \<in> set (flist G st s)" by simp
  show in_s: "inspan G (span st s) v" by (rule flist_inspan [OF PI s_own v_in])
  from flist_distinct [OF PI s_own] fl have v_notin: "v \<notin> set (flist G st' s)" by simp
  have v_other: "\<And>t. t \<in> set (owned st) \<Longrightarrow> t \<noteq> s \<Longrightarrow> v \<notin> set (flist G st t)"
    by (rule flist_other [OF PI s_own _ _ in_s]) auto
  show "set (allfree G st') = set (allfree G st) - {v}"
  proof -
    have "set (allfree G st') = (\<Union>t \<in> set (owned st). set (flist G st' t))"
      by (simp add: set_allfree own)
    also have "\<dots> = (\<Union>t \<in> set (owned st). set (flist G st t) - {v})"
    proof (rule SUP_cong [OF refl])
      fix t
      assume t: "t \<in> set (owned st)"
      show "set (flist G st' t) = set (flist G st t) - {v}"
      proof (cases "t = s")
        case True
        with fl v_notin show ?thesis by auto
      next
        case False
        with oth [OF False] v_other [OF t False] show ?thesis by simp
      qed
    qed
    also have "\<dots> = set (allfree G st) - {v}" by (auto simp: set_allfree)
    finally show ?thesis .
  qed
  show "length (allfree G st) = Suc (length (allfree G st'))"
  proof -
    have fin: "finite (set (owned st))" by simp
    have "length (allfree G st) = (\<Sum>t \<in> set (owned st). length (flist G st t))"
      by (rule length_allfree [OF pool_invD(2) [OF PI]])
    also have "\<dots> = length (flist G st s) + (\<Sum>t \<in> set (owned st) - {s}. length (flist G st t))"
      by (rule sum.remove [OF fin s_own])
    also have "(\<Sum>t \<in> set (owned st) - {s}. length (flist G st t)) =
               (\<Sum>t \<in> set (owned st) - {s}. length (flist G st' t))"
      by (rule sum.cong) (simp_all add: oth)
    also have "length (flist G st s) = Suc (length (flist G st' s))" using fl by simp
    finally have "length (allfree G st) =
        Suc (length (flist G st' s) + (\<Sum>t \<in> set (owned st) - {s}. length (flist G st' t)))"
      by simp
    also have "length (flist G st' s) + (\<Sum>t \<in> set (owned st) - {s}. length (flist G st' t)) =
               (\<Sum>t \<in> set (owned st). length (flist G st' t))"
      by (rule sum.remove [OF fin s_own, symmetric])
    also have "\<dots> = length (allfree G st')"
      using length_allfree [OF d', of G] own by simp
    finally show ?thesis .
  qed
  show "v \<in> set (allfree G st)" using v_in s_own by (auto simp: set_allfree)
qed

text \<open>A store into an object that is not free leaves the central well formed.\<close>

lemma pool_inv_store:
  assumes PI: "pool_inv G st" and a: "a \<notin> set (allfree G st)"
  shows "pool_inv G (st\<lparr>mem := (mem st)(a := b)\<rparr>)"
    "\<And>t. t \<in> set (owned st) \<Longrightarrow> flist G (st\<lparr>mem := (mem st)(a := b)\<rparr>) t = flist G st t"
    "avail G (st\<lparr>mem := (mem st)(a := b)\<rparr>) = avail G st"
    "allfree G (st\<lparr>mem := (mem st)(a := b)\<rparr>) = allfree G st"
proof -
  let ?st = "st\<lparr>mem := (mem st)(a := b)\<rparr>"
  have fr: "\<And>t x. t \<in> set (owned st) \<Longrightarrow> x \<in> set (flist G st t) \<Longrightarrow> mem ?st x = mem st x"
    using a by (auto simp: set_allfree)
  show fl: "\<And>t. t \<in> set (owned st) \<Longrightarrow> flist G ?st t = flist G st t"
    by (rule flist_frame) (use fr in \<open>simp_all add: nobj_def\<close>)
  have "\<And>t. t \<in> set (owned ?st) \<Longrightarrow> span_ok G ?st t"
  proof -
    fix t
    assume "t \<in> set (owned ?st)"
    then have t: "t \<in> set (owned st)" by (simp add: owned_def)
    show "span_ok G ?st t"
      by (rule span_ok_frame [OF _ _ _ _ pool_invD(5) [OF PI t]]) (use fr [OF t] in simp_all)
  qed
  moreover have "heap_ok G ?st = heap_ok G st"
    by (rule heap_ok_frame) simp_all
  ultimately show "pool_inv G ?st"
    using pool_invD(1-4) [OF PI] unfolding pool_inv_def by (simp add: owned_def)
  have c: "central ?st = central st" "owned ?st = owned st" by (simp_all add: owned_def)
  have "map (flist G ?st) (nonempty (central st)) = map (flist G st) (nonempty (central st))"
    by (rule map_cong [OF refl]) (simp add: fl owned_def)
  then show "avail G ?st = avail G st" by (simp only: avail_def c)
  have "map (flist G ?st) (owned st) = map (flist G st) (owned st)"
    by (rule map_cong [OF refl]) (simp add: fl)
  then show "allfree G ?st = allfree G st" by (simp only: allfree_def c)
qed

lemma chain_snoc:
  assumes "chain (m(l := 0)) p (ys @ [l])" "v \<notin> set (ys @ [l])" "v \<noteq> 0"
  shows "chain (m(l := v, v := 0)) p (ys @ [l, v])"
  using assms
proof (induction ys arbitrary: p)
  case Nil
  then show ?case by auto
next
  case (Cons y ys)
  from Cons.prems(1) have c0: "chain (m(l := 0)) p (y # (ys @ [l]))"
    by (simp only: append_Cons)
  then have py: "p = y" "y \<noteq> 0" and c1: "chain (m(l := 0)) ((m(l := 0)) y) (ys @ [l])"
    unfolding chain.simps by blast+
  from c0 py(1) have "chain (m(l := 0)) y (y # (ys @ [l]))" by (simp only:)
  from chain_hd_notin [OF this] have yl: "y \<noteq> l" by simp
  from Cons.prems(2) have yv: "y \<noteq> v" by auto
  from c1 yl have "chain (m(l := 0)) (m y) (ys @ [l])" by simp
  moreover from Cons.prems(2) have "v \<notin> set (ys @ [l])" by simp
  ultimately have step: "chain (m(l := v, v := 0)) (m y) (ys @ [l, v])"
    using Cons.prems(3) by (rule Cons.IH)
  have my: "(m(l := v, v := 0)) y = m y" using yl yv by simp
  have "chain (m(l := v, v := 0)) p (y # (ys @ [l, v]))"
    unfolding chain.simps my using py step by blast
  then show ?case by (simp only: append_Cons)
qed

subsection \<open>Runs of allocations\<close>

lemma alloc_postD:
  assumes "alloc_post G st zs st'"
  shows "pool_inv G st'" "avail G st = zs @ avail G st'"
    "set (allfree G st') = set (allfree G st) - set zs"
    "length (allfree G st) = length zs + length (allfree G st')"
    "inuse st' = inuse st" "freespans st' = freespans st"
    "sizeclass (central st') = sizeclass (central st)"
    "set (owned st') = set (owned st)"
    "\<And>s. start (span st' s) = start (span st s)"
    "\<And>s. npages (span st' s) = npages (span st s)"
    "\<And>s. s \<in> set (owned st) \<Longrightarrow>
       ref (span st' s) = ref (span st s) + length (filter (inspan G (span st s)) zs)"
  using assms unfolding alloc_post_def by blast+

lemma alloc_postI:
  assumes "pool_inv G st'" "avail G st = zs @ avail G st'"
    "set (allfree G st') = set (allfree G st) - set zs"
    "length (allfree G st) = length zs + length (allfree G st')"
    "inuse st' = inuse st" "freespans st' = freespans st"
    "sizeclass (central st') = sizeclass (central st)"
    "set (owned st') = set (owned st)"
    "\<And>s. start (span st' s) = start (span st s)"
    "\<And>s. npages (span st' s) = npages (span st s)"
    "\<And>s. s \<in> set (owned st) \<Longrightarrow>
       ref (span st' s) = ref (span st s) + length (filter (inspan G (span st s)) zs)"
  shows "alloc_post G st zs st'"
  using assms unfolding alloc_post_def by blast

lemma inspan_cong:
  "start sp' = start sp \<Longrightarrow> npages sp' = npages sp \<Longrightarrow> inspan G sp' = inspan G sp"
  by (simp add: inspan_def base_def bytes_def fun_eq_iff)

lemma alloc_post_refl: "pool_inv G st \<Longrightarrow> alloc_post G st [] st"
  by (rule alloc_postI) simp_all

lemma alloc_post_trans:
  assumes a: "alloc_post G st zs st1" and b: "alloc_post G st1 ws st2"
  shows "alloc_post G st (zs @ ws) st2"
proof (rule alloc_postI)
  note A = alloc_postD [OF a] and B = alloc_postD [OF b]
  show "pool_inv G st2" by (rule B(1))
  show "avail G st = (zs @ ws) @ avail G st2" using A(2) B(2) by simp
  show "set (allfree G st2) = set (allfree G st) - set (zs @ ws)"
    using A(3) B(3) by auto
  show "length (allfree G st) = length (zs @ ws) + length (allfree G st2)"
    using A(4) B(4) by simp
  show "inuse st2 = inuse st" using A(5) B(5) by simp
  show "freespans st2 = freespans st" using A(6) B(6) by simp
  show "sizeclass (central st2) = sizeclass (central st)" using A(7) B(7) by simp
  show "set (owned st2) = set (owned st)" using A(8) B(8) by simp
  show "\<And>s. start (span st2 s) = start (span st s)" using A(9) B(9) by simp
  show "\<And>s. npages (span st2 s) = npages (span st s)" using A(10) B(10) by simp
  fix s
  assume s: "s \<in> set (owned st)"
  with A(8) have s1: "s \<in> set (owned st1)" by simp
  have "inspan G (span st1 s) = inspan G (span st s)"
    by (rule inspan_cong [OF A(9) A(10)])
  with A(11) [OF s] B(11) [OF s1]
  show "ref (span st2 s) = ref (span st s) + length (filter (inspan G (span st s)) (zs @ ws))"
    by simp
qed

lemma alloc_post_store:
  assumes a: "alloc_post G st zs st'" and n: "x \<notin> set (allfree G st')"
  shows "alloc_post G st zs (st'\<lparr>mem := (mem st')(x := y)\<rparr>)"
proof -
  note A = alloc_postD [OF a]
  note S = pool_inv_store [OF A(1) n, of y]
  show ?thesis
    by (rule alloc_postI) (use A S in \<open>simp_all add: owned_def\<close>)
qed

lemma alloc_post_Alloc:
  assumes PI: "pool_inv G st" and ne: "nonempty (central st) \<noteq> []"
  obtains v st' where "MCentral_Alloc st = Inr (v, st')" "v \<noteq> 0" "alloc_post G st [v] st'"
    "mem st' = mem st" "nfree (central st') = nfree (central st)"
proof -
  from ne obtain s rest where ne': "nonempty (central st) = s # rest"
    by (cases "nonempty (central st)") auto
  then have s_own: "s \<in> set (owned st)" by (simp add: owned_def)
  from Alloc_pool [OF PI ne'] obtain v st' where
    al: "MCentral_Alloc st = Inr (v, st')" "v \<noteq> 0" and
    fl: "flist G st s = v # flist G st' s" and PI': "pool_inv G st'" and
    fr: "mem st' = mem st" "inuse st' = inuse st" "freespans st' = freespans st"
      "nfree (central st') = nfree (central st)"
      "sizeclass (central st') = sizeclass (central st)" and
    own: "set (owned st') = set (owned st)" and
    sp: "span st' = (span st)(s := (span st s)\<lparr>freelist := mem st v, ref := ref (span st s) + 1\<rparr>)" and
    oth: "\<And>t. t \<noteq> s \<Longrightarrow> flist G st' t = flist G st t" and
    nn: "nonempty (central st') = (if flist G st' s = [] then rest else s # rest)"
    by blast
  note F = Alloc_pool_free [OF PI ne' fl own oth nn pool_invD(2) [OF PI']]
  have ap: "alloc_post G st [v] st'"
  proof (rule alloc_postI)
    show "pool_inv G st'" by (rule PI')
    show "avail G st = [v] @ avail G st'" using F(1) by simp
    show "set (allfree G st') = set (allfree G st) - set [v]" using F(3) by simp
    show "length (allfree G st) = length [v] + length (allfree G st')" using F(4) by simp
    show "inuse st' = inuse st" "freespans st' = freespans st"
      "sizeclass (central st') = sizeclass (central st)" "set (owned st') = set (owned st)"
      by (rule fr own)+
    show "\<And>t. start (span st' t) = start (span st t)" by (simp add: sp)
    show "\<And>t. npages (span st' t) = npages (span st t)" by (simp add: sp)
    fix t
    assume t: "t \<in> set (owned st)"
    show "ref (span st' t) = ref (span st t) + length (filter (inspan G (span st t)) [v])"
    proof (cases "t = s")
      case True
      with F(2) sp show ?thesis by simp
    next
      case False
      from owned_disjoint [OF PI s_own t _ F(2)] False have "\<not> inspan G (span st t) v" by blast
      with False sp show ?thesis by simp
    qed
  qed
  show ?thesis by (rule that [OF al ap fr(1,4)])
qed

lemma AllocList_loop_pool:
  assumes "pool_inv G st" "set (ys @ [lastp]) \<inter> set (allfree G st) = {}"
    "chain ((mem st)(lastp := 0)) first (ys @ [lastp])"
  shows "\<exists>st' lastp' zs.
     AllocList_loop st n i lastp = Inr (i + int (length zs), st', lastp') \<and>
     zs = take (nat (n - i)) (avail G st) \<and>
     alloc_post G st zs st' \<and> nfree (central st') = nfree (central st) \<and>
     chain ((mem st')(lastp' := 0)) first (ys @ lastp # zs) \<and>
     lastp' \<notin> set (allfree G st')"
  using assms
proof (induction st n i lastp arbitrary: ys rule: AllocList_loop.induct)
  case (1 st n i lastp)
  note PI = "1.prems"(1) and dj = "1.prems"(2) and ch = "1.prems"(3)
  from dj have last_notin: "lastp \<notin> set (allfree G st)" by auto
  have stop: "AllocList_loop st n i lastp = Inr (i, st, lastp) \<Longrightarrow>
              take (nat (n - i)) (avail G st) = [] \<Longrightarrow> ?case"
  proof -
    assume a: "AllocList_loop st n i lastp = Inr (i, st, lastp)"
      and b: "take (nat (n - i)) (avail G st) = []"
    show ?case
    proof (intro exI conjI)
      show "AllocList_loop st n i lastp = Inr (i + int (length ([] :: addr list)), st, lastp)"
        using a by simp
      show "[] = take (nat (n - i)) (avail G st)" using b by simp
      show "alloc_post G st [] st" by (rule alloc_post_refl [OF PI])
      show "nfree (central st) = nfree (central st)" ..
      show "chain ((mem st)(lastp := 0)) first (ys @ [lastp])" by (rule ch)
      show "lastp \<notin> set (allfree G st)" by (rule last_notin)
    qed
  qed
  show ?case
  proof (cases "i < n")
    case False
    then show ?thesis by (intro stop) (simp_all add: AllocList_loop.simps [of st])
  next
    case True
    note lt = this
    show ?thesis
    proof (cases "nonempty (central st) = []")
      case True
      then have "MCentral_Alloc st = Inr (0, st)"
        by (simp add: MCentral_Alloc_def MSpanList_IsEmpty_def)
      moreover from True have "avail G st = []" by (simp add: avail_def)
      ultimately show ?thesis using lt
        by (intro stop) (simp_all add: AllocList_loop.simps [of st])
    next
      case False
      from alloc_post_Alloc [OF PI False] obtain v st1 where
        al: "MCentral_Alloc st = Inr (v, st1)" and v0: "v \<noteq> 0" and
        ap: "alloc_post G st [v] st1" and m1: "mem st1 = mem st" and
        nf1: "nfree (central st1) = nfree (central st)"
        by blast
      note A = alloc_postD [OF ap]
      let ?st2 = "st1\<lparr>mem := (mem st1)(lastp := v)\<rparr>"
      from A(2) have v_av: "v \<in> set (avail G st)" by simp
      then have v_free: "v \<in> set (allfree G st)" by (simp add: set_avail [OF PI])
      with dj have v_new: "v \<notin> set (ys @ [lastp])" by auto
      from A(3) last_notin have l1: "lastp \<notin> set (allfree G st1)" by simp
      have ap2: "alloc_post G st [v] ?st2"
        by (rule alloc_post_store [OF ap l1])
      note A2 = alloc_postD [OF ap2]
      have af2: "allfree G ?st2 = allfree G st1" "avail G ?st2 = avail G st1"
        by (rule pool_inv_store [OF A(1) l1])+
      have dj2: "set ((ys @ [lastp]) @ [v]) \<inter> set (allfree G ?st2) = {}"
        using dj A(3) af2 by auto
      have "chain ((mem st)(lastp := v, v := 0)) first (ys @ [lastp, v])"
        by (rule chain_snoc [OF ch v_new v0])
      then have ch2: "chain ((mem ?st2)(v := 0)) first ((ys @ [lastp]) @ [v])"
        by (simp add: m1)
      from "1.IH" [OF lt al refl v0 A2(1) dj2 ch2]
      obtain st' lastp' zs where
        lp: "AllocList_loop ?st2 n (i + 1) v = Inr (i + 1 + int (length zs), st', lastp')" and
        zs: "zs = take (nat (n - (i + 1))) (avail G ?st2)" and
        ap': "alloc_post G ?st2 zs st'" and nf': "nfree (central st') = nfree (central ?st2)" and
        ch': "chain ((mem st')(lastp' := 0)) first ((ys @ [lastp]) @ v # zs)" and
        l': "lastp' \<notin> set (allfree G st')"
        by blast
      have nat_eq: "nat (n - i) = Suc (nat (n - (i + 1)))" using lt by simp
      show ?thesis
      proof (intro exI conjI)
        show "AllocList_loop st n i lastp = Inr (i + int (length (v # zs)), st', lastp')"
          using lt al v0 lp by (simp add: AllocList_loop.simps [of st])
        show "v # zs = take (nat (n - i)) (avail G st)"
          using A2(2) zs nat_eq by simp
        show "alloc_post G st (v # zs) st'"
          using alloc_post_trans [OF ap2 ap'] by simp
        show "nfree (central st') = nfree (central st)"
          using nf' nf1 by simp
        show "chain ((mem st')(lastp' := 0)) first (ys @ lastp # v # zs)"
          using ch' by simp
        show "lastp' \<notin> set (allfree G st')" by (rule l')
      qed
    qed
  qed
qed

subsection \<open>Growing a well-formed central\<close>

lemma disjoint_ranges_move:
  "disjoint_ranges (xs @ r # ys) \<Longrightarrow> disjoint_ranges (r # xs @ ys)"
proof (induction xs)
  case Nil
  then show ?case by simp
next
  case (Cons a xs)
  from Cons.prems have a: "\<forall>q \<in> set (xs @ r # ys). snd a \<le> fst q \<or> snd q \<le> fst a"
    and rest: "disjoint_ranges (xs @ r # ys)" by simp_all
  from Cons.IH [OF rest] have r: "\<forall>q \<in> set (xs @ ys). snd r \<le> fst q \<or> snd q \<le> fst r"
    and xy: "disjoint_ranges (xs @ ys)" by simp_all
  from a have ar: "snd a \<le> fst r \<or> snd r \<le> fst a" by simp
  from a have a': "\<forall>q \<in> set (xs @ ys). snd a \<le> fst q \<or> snd q \<le> fst a" by simp
  from r ar a' xy show ?case by auto
qed

lemma disjoint_ranges_cross:
  "disjoint_ranges (xs @ ys) \<Longrightarrow> a \<in> set xs \<Longrightarrow> b \<in> set ys \<Longrightarrow>
   snd a \<le> fst b \<or> snd b \<le> fst a"
  by (induction xs) auto

lemma pool_inv_pos:
  assumes "pool_inv G st"
  shows "\<forall>(s, p) \<in> set (freespans st). 0 < p"
  using pool_invD(4) [OF assms] unfolding heap_ok_def by blast

lemma Grow_pool:
  assumes PI: "pool_inv G st" and gr: "MCentral_Grow G st = r"
  obtains (exhausted) "freespans st = []" "r = Inr (False, st)"
  | (grown) g p rest st' where "freespans st = (g, p) # rest" "r = Inr (True, st')"
      "pool_inv G st'"
      "nonempty (central st') = g # nonempty (central st)"
      "empty (central st') = empty (central st)"
      "nfree (central st') = nfree (central st) + int (length (slots G st' g))"
      "inuse st' = g # inuse st" "freespans st' = rest"
      "sizeclass (central st') = sizeclass (central st)"
      "g \<notin> set (inuse st)"
      "flist G st' g = slots G st' g"
      "length (slots G st' g) =
         class_to_allocnpages G (sizeclass (central st)) * 2 ^ PageShift G div
           class_to_size G (sizeclass (central st))"
      "ref (span st' g) = 0"
      "\<And>t. t \<noteq> g \<Longrightarrow> span st' t = span st t"
      "\<And>t. t \<in> set (owned st) \<Longrightarrow> flist G st' t = flist G st t"
proof -
  let ?sc = "sizeclass (central st)"
  let ?sz = "class_to_size G ?sc"
  let ?np = "class_to_allocnpages G ?sc"
  let ?N = "?np * 2 ^ PageShift G div ?sz"
  let ?f = "\<lambda>s. (base G (span st s), base G (span st s) + bytes G (span st s))"
  let ?h = "\<lambda>(s, p). (p * 2 ^ PageShift G, p * 2 ^ PageShift G + ?np * 2 ^ PageShift G)"
  note g_ok = pool_invD(1) [OF PI]
  then have sz: "0 < ?sz" by (simp add: geom_ok_def)
  note hp = pool_invD(4) [OF PI]
  from gr g_ok pool_inv_pos [OF PI] show ?thesis
  proof (cases rule: MCentral_Grow_cases)
    case exhausted
    then show ?thesis by (rule that(1))
  next
    case (grown g p rest st')
    note c' = grown(3) and fs = grown(1)
    have scl: "sizeclass (central st') = ?sc" using c' by simp
    have ne': "nonempty (central st') = g # nonempty (central st)"
      and em': "empty (central st') = empty (central st)" using c' by simp_all
    from hp fs have g_new: "g \<notin> set (inuse st)" and g_rest: "g \<notin> fst ` set rest"
      and d_in: "distinct (inuse st)" and d_rest: "distinct (map fst rest)"
      and inuse_rest: "set (inuse st) \<inter> fst ` set rest = {}"
      by (auto simp: heap_ok_def)
    from pool_inv_pos [OF PI] fs have p: "0 < p" by auto
    with pool_invD(3) [OF PI] g_new have g_own: "g \<notin> set (owned st)" by auto
    have bg: "base G (span st' g) = p * 2 ^ PageShift G"
      and byg: "bytes G (span st' g) = ?np * 2 ^ PageShift G"
      using grown(4,5) by (simp_all add: base_def bytes_def)
    have nobj_g: "nobj G st' g = ?N" by (simp add: nobj_def byg scl)
    have slots_g: "slots G st' g = slots_from (p * 2 ^ PageShift G) ?sz ?N"
      by (simp add: slots_def bg scl nobj_g)
    have dr: "disjoint_ranges (map ?f (inuse st) @ ?h (g, p) # map ?h rest)"
      using hp fs by (simp add: heap_ok_def ranges_def)
    have fg: "\<And>t. t \<in> set (inuse st) \<Longrightarrow>
                (base G (span st' t), base G (span st' t) + bytes G (span st' t)) = ?f t"
    proof -
      fix t
      assume "t \<in> set (inuse st)"
      with g_new have "t \<noteq> g" by blast
      from grown(8) [OF this]
      show "(base G (span st' t), base G (span st' t) + bytes G (span st' t)) = ?f t"
        by simp
    qed
    have m1: "map (\<lambda>s. (base G (span st' s), base G (span st' s) + bytes G (span st' s)))
                (inuse st) = map ?f (inuse st)"
      by (rule map_cong [OF refl]) (rule fg)
    have rg: "ranges G st' = ?h (g, p) # map ?f (inuse st) @ map ?h rest"
      unfolding ranges_def grown(9,10) scl list.map m1 by (simp add: bg byg)
    have hp': "heap_ok G st'"
      unfolding heap_ok_def rg
      using disjoint_ranges_move [OF dr] hp fs g_new g_rest
      by (auto simp: grown(9,10) heap_ok_def)
    text \<open>The carving wrote into the new span only.\<close>
    have outside: "\<And>t x. t \<in> set (owned st) \<Longrightarrow> x \<in> set (flist G st t) \<Longrightarrow> mem st' x = mem st x"
    proof -
      fix t x
      assume t: "t \<in> set (owned st)" and x: "x \<in> set (flist G st t)"
      from pool_invD(3) [OF PI] t have t_in: "t \<in> set (inuse st)" by blast
      from flist_inspan [OF PI t x] have xin: "inspan G (span st t) x" .
      have "?f t \<in> set (map ?f (inuse st))" using t_in by simp
      moreover have "?h (g, p) \<in> set (?h (g, p) # map ?h rest)" by simp
      ultimately have "snd (?f t) \<le> fst (?h (g, p)) \<or> snd (?h (g, p)) \<le> fst (?f t)"
        by (rule disjoint_ranges_cross [OF dr])
      with xin have out: "x < p * 2 ^ PageShift G \<or> p * 2 ^ PageShift G + ?np * 2 ^ PageShift G \<le> x"
        by (auto simp: inspan_def)
      have "x \<notin> set (slots_from (p * 2 ^ PageShift G) ?sz ?N)"
      proof
        assume "x \<in> set (slots_from (p * 2 ^ PageShift G) ?sz ?N)"
        from slots_from_bounds [OF this]
        have b: "p * 2 ^ PageShift G \<le> x" "x + ?sz \<le> p * 2 ^ PageShift G + ?N * ?sz"
          by simp_all
        have le: "?N * ?sz \<le> ?np * 2 ^ PageShift G" by simp
        from b le out sz show False by linarith
      qed
      then show "mem st' x = mem st x" by (rule grown(12))
    qed
    have fl_g: "flist G st' g = slots G st' g"
      unfolding flist_def nobj_g grown(6) slots_g
      by (rule chain_walk [OF grown(11)]) simp
    have fl_t: "\<And>t. t \<in> set (owned st) \<Longrightarrow> flist G st' t = flist G st t"
    proof (rule flist_frame)
      fix t
      assume t: "t \<in> set (owned st)"
      with g_own have tg: "t \<noteq> g" by auto
      show "freelist (span st' t) = freelist (span st t)" using grown(8) [OF tg] by simp
      show "nobj G st' t = nobj G st t" using grown(8) [OF tg] scl by (simp add: nobj_def)
      show "\<And>x. x \<in> set (flist G st t) \<Longrightarrow> mem st' x = mem st x" by (rule outside [OF t])
    qed
    have ok_g: "span_ok G st' g"
      unfolding span_ok_def fl_g
      using grown(11) p grown(4,5,6,7) ne' nobj_g
      by (simp add: slots_g scl)
    have ok_t: "\<And>t. t \<in> set (owned st) \<Longrightarrow> span_ok G st' t"
    proof -
      fix t
      assume t: "t \<in> set (owned st)"
      with g_own have tg: "t \<noteq> g" by auto
      show "span_ok G st' t"
        by (rule span_ok_frame [OF grown(8) [OF tg] scl _ outside [OF t] pool_invD(5) [OF PI t]])
           (use ne' tg in simp_all)
    qed
    have own': "owned st' = g # owned st" by (simp add: owned_def ne' em')
    have PI': "pool_inv G st'"
      unfolding pool_inv_def own'
      using g_ok scl g_own pool_invD(2,3) [OF PI] hp' ok_g ok_t grown(9)
      by auto
    show ?thesis
    proof (rule that(2) [OF fs grown(2) PI' ne' em' _ grown(9,10) scl g_new fl_g _ grown(7,8) fl_t])
      show "length (slots G st' g) = ?N" by (simp add: nobj_g)
      then show "nfree (central st') = nfree (central st) + int (length (slots G st' g))"
        using c' by simp
    qed
  qed
qed

subsection \<open>A batch allocation in a well-formed central\<close>

lemma flist_nfree:
  "nobj G (st\<lparr>central := (central st)\<lparr>nfree := x\<rparr>\<rparr>) = nobj G st"
  "slots G (st\<lparr>central := (central st)\<lparr>nfree := x\<rparr>\<rparr>) = slots G st"
  "flist G (st\<lparr>central := (central st)\<lparr>nfree := x\<rparr>\<rparr>) = flist G st"
  by (simp_all add: nobj_def slots_def flist_def fun_eq_iff)

lemma nfree_frame:
  "avail G (st\<lparr>central := (central st)\<lparr>nfree := x\<rparr>\<rparr>) = avail G st"
  "allfree G (st\<lparr>central := (central st)\<lparr>nfree := x\<rparr>\<rparr>) = allfree G st"
  "owned (st\<lparr>central := (central st)\<lparr>nfree := x\<rparr>\<rparr>) = owned st"
  "ranges G (st\<lparr>central := (central st)\<lparr>nfree := x\<rparr>\<rparr>) = ranges G st"
  by (simp_all add: flist_nfree avail_def allfree_def owned_def ranges_def)

lemma pool_inv_nfree:
  "pool_inv G (st\<lparr>central := (central st)\<lparr>nfree := x\<rparr>\<rparr>) = pool_inv G st"
  by (simp add: pool_inv_def span_ok_def heap_ok_def nfree_frame flist_nfree)

lemma alloc_post_nfree:
  assumes "alloc_post G st zs st'"
  shows "alloc_post G st zs (st'\<lparr>central := (central st')\<lparr>nfree := x\<rparr>\<rparr>)"
  by (rule alloc_postI)
     (use alloc_postD [OF assms] in \<open>simp_all add: nfree_frame flist_nfree pool_inv_nfree\<close>)

lemma AllocList_after:
  assumes PI: "pool_inv G st1" and ne: "nonempty (central st1) \<noteq> []"
    and rp: "replenish G st = Inr (True, st1)"
  obtains first st' zs where
    "MCentral_AllocList G st n = Inr (int (length zs), first, st')"
    "zs = take (nat (max 1 n)) (avail G st1)" "zs \<noteq> []" "first = hd zs"
    "chain (mem st') first zs" "alloc_post G st1 zs st'"
    "nfree (central st') = nfree (central st1) - int (length zs)"
proof -
  from alloc_post_Alloc [OF PI ne] obtain first st2 where
    al: "MCentral_Alloc st1 = Inr (first, st2)" and f0: "first \<noteq> 0" and
    ap: "alloc_post G st1 [first] st2" and m2: "mem st2 = mem st1" and
    nf2: "nfree (central st2) = nfree (central st1)"
    by blast
  note A = alloc_postD [OF ap]
  have dj: "set ([] @ [first]) \<inter> set (allfree G st2) = {}" using A(3) by simp
  have ch: "chain ((mem st2)(first := 0)) first ([] @ [first])" using f0 by simp
  from AllocList_loop_pool [OF A(1) dj ch, of n 1] obtain st3 lastp zs' where
    lp: "AllocList_loop st2 n 1 first = Inr (1 + int (length zs'), st3, lastp)" and
    zs': "zs' = take (nat (n - 1)) (avail G st2)" and
    ap3: "alloc_post G st2 zs' st3" and nf3: "nfree (central st3) = nfree (central st2)" and
    ch3: "chain ((mem st3)(lastp := 0)) first ([] @ first # zs')" and
    l3: "lastp \<notin> set (allfree G st3)"
    by blast
  let ?i = "1 + int (length zs')"
  let ?st' = "st3\<lparr>mem := (mem st3)(lastp := 0),
                   central := (central st3)\<lparr>nfree := nfree (central st3) - ?i\<rparr>\<rparr>"
  let ?zs = "first # zs'"
  have res: "MCentral_AllocList G st n = Inr (int (length ?zs), first, ?st')"
    using rp al f0 lp by (simp add: MCentral_AllocList_def Let_def)
  have "alloc_post G st1 ([first] @ zs') st3" by (rule alloc_post_trans [OF ap ap3])
  then have "alloc_post G st1 ?zs (st3\<lparr>mem := (mem st3)(lastp := 0)\<rparr>)"
    using alloc_post_store [OF _ l3] by simp
  from alloc_post_nfree [OF this, of "nfree (central st3) - ?i"]
  have post: "alloc_post G st1 ?zs ?st'" by simp
  have tk: "?zs = take (nat (max 1 n)) (avail G st1)"
  proof -
    have "nat (max 1 n) = Suc (nat (n - 1))" by simp
    with A(2) zs' show ?thesis by simp
  qed
  show ?thesis
  proof (rule that [OF res tk _ _ _ post])
    show "?zs \<noteq> []" by simp
    show "first = hd ?zs" by simp
    show "chain (mem ?st') first ?zs" using ch3 by simp
    show "nfree (central ?st') = nfree (central st1) - int (length ?zs)"
      using nf3 nf2 by simp
  qed
qed

lemma replenish_cases:
  assumes PI: "pool_inv G st"
  obtains (oom) "nonempty (central st) = []" "freespans st = []"
      "replenish G st = Inr (False, st)"
  | (ready) "nonempty (central st) \<noteq> []" "replenish G st = Inr (True, st)"
  | (grown) g p rest st1 where "nonempty (central st) = []" "freespans st = (g, p) # rest"
      "replenish G st = Inr (True, st1)" "MCentral_Grow G st = Inr (True, st1)"
proof (cases "nonempty (central st) = []")
  case False
  then have "replenish G st = Inr (True, st)"
    by (simp add: replenish_def MSpanList_IsEmpty_def)
  with False show ?thesis by (rule ready)
next
  case True
  then have r: "replenish G st = MCentral_Grow G st"
    by (simp add: replenish_def MSpanList_IsEmpty_def)
  from PI refl [of "MCentral_Grow G st"] show ?thesis
  proof (cases rule: Grow_pool)
    case exhausted
    with True r show ?thesis by (intro oom) simp_all
  next
    case (grown g p rest st')
    show ?thesis
      by (rule that(3) [OF True grown(1) _ grown(2)]) (simp add: r grown(2))
  qed
qed

subsection \<open>What a batch allocation returns\<close>

lemma replenish_pool:
  assumes PI: "pool_inv G st" and rp: "replenish G st = Inr (True, st1)"
  shows "pool_inv G st1" "nonempty (central st1) \<noteq> []"
    "length (freespans st) \<le> Suc (length (freespans st1))"
    "nonempty (central st) \<noteq> [] \<Longrightarrow> st1 = st"
proof -
  have "pool_inv G st1 \<and> nonempty (central st1) \<noteq> [] \<and>
        length (freespans st) \<le> Suc (length (freespans st1)) \<and>
        (nonempty (central st) \<noteq> [] \<longrightarrow> st1 = st)"
  proof (cases "nonempty (central st) = []")
    case False
    with rp have "st1 = st" by (simp add: replenish_def MSpanList_IsEmpty_def)
    with PI False show ?thesis by simp
  next
    case True
    with rp have g: "MCentral_Grow G st = Inr (True, st1)"
      by (simp add: replenish_def MSpanList_IsEmpty_def)
    from PI g show ?thesis
    proof (cases rule: Grow_pool)
      case exhausted
      then show ?thesis by simp
    next
      case (grown g p rest st')
      with True show ?thesis by simp
    qed
  qed
  then show "pool_inv G st1" "nonempty (central st1) \<noteq> []"
    "length (freespans st) \<le> Suc (length (freespans st1))"
    "nonempty (central st) \<noteq> [] \<Longrightarrow> st1 = st"
    by simp_all
qed

lemma take_length_take: "take (length (take k xs)) xs = take k xs"
  by (cases "k \<le> length xs") (simp_all add: min_def)

lemma AllocList_returns:
  assumes PI: "pool_inv G st" and rp: "replenish G st = Inr (True, st1)"
  obtains first st' where
    "MCentral_AllocList G st n =
       Inr (max 1 (min n (int (length (avail G st1)))), first, st')"
    "chain (mem st') first (take (nat (max 1 (min n (int (length (avail G st1)))))) (avail G st1))"
    "avail G st' = drop (nat (max 1 (min n (int (length (avail G st1)))))) (avail G st1)"
    "alloc_post G st1 (take (nat (max 1 (min n (int (length (avail G st1)))))) (avail G st1)) st'"
    "nfree (central st') = nfree (central st1) - max 1 (min n (int (length (avail G st1))))"
proof -
  note R = replenish_pool [OF PI rp]
  let ?L = "length (avail G st1)"
  let ?i = "max 1 (min n (int ?L))"
  from R(1,2) have "avail G st1 \<noteq> []" by (simp add: avail_Nil)
  then have L: "1 \<le> ?L" by (cases "avail G st1") simp_all
  from AllocList_after [OF R(1,2) rp, of n] obtain first st' zs where
    res: "MCentral_AllocList G st n = Inr (int (length zs), first, st')" and
    zs: "zs = take (nat (max 1 n)) (avail G st1)" and
    ch: "chain (mem st') first zs" and ap: "alloc_post G st1 zs st'" and
    nf: "nfree (central st') = nfree (central st1) - int (length zs)"
    by blast
  have "length zs = min ?L (nat (max 1 n))" using zs by simp
  with L have len: "int (length zs) = ?i" by arith
  then have ni: "nat ?i = length zs" by simp
  have tk: "take (nat ?i) (avail G st1) = zs"
    unfolding ni zs by (rule take_length_take)
  have dr: "avail G st' = drop (nat ?i) (avail G st1)"
    unfolding ni using alloc_postD(2) [OF ap] by simp
  show ?thesis
    by (rule that [of first st']) (use res ch ap nf len tk dr in simp_all)
qed

text \<open>
  Claim C3. In a well-formed central where the initial \<^verbatim>\<open>MCentral_Grow\<close> is not
  needed or succeeds, \<^verbatim>\<open>MCentral_AllocList\<close> returns; the count \<open>i\<close> it grants is at
  least 1 and, for a requested count of at least 1, at most the requested count: it is
  the smaller of the request and of the number of free objects of the nonempty spans.
  The objects are the first \<open>i\<close> of the free lists of the nonempty spans, the first
  span of the nonempty list first, each list from its head; \<^verbatim>\<open>*pfirst\<close> heads a chain
  of exactly these \<open>i\<close> objects in this order, which ends in \<^verbatim>\<open>nil\<close>, and they are no
  longer free.
\<close>

theorem C3_AllocList_chain:
  assumes "pool_inv G st" "replenish G st = Inr (True, st1)"
  shows "\<exists>i first st'.
     MCentral_AllocList G st n = Inr (i, first, st') \<and>
     1 \<le> i \<and> (1 \<le> n \<longrightarrow> i \<le> n) \<and>
     i = max 1 (min n (int (length (avail G st1)))) \<and>
     length (take (nat i) (avail G st1)) = nat i \<and>
     chain (mem st') first (take (nat i) (avail G st1)) \<and>
     avail G st' = drop (nat i) (avail G st1)"
proof -
  from replenish_pool(1,2) [OF assms] have "avail G st1 \<noteq> []" by (simp add: avail_Nil)
  then have L: "1 \<le> length (avail G st1)" by (cases "avail G st1") simp_all
  from AllocList_returns [OF assms, of n] obtain first st' where
    "MCentral_AllocList G st n =
       Inr (max 1 (min n (int (length (avail G st1)))), first, st')"
    "chain (mem st') first (take (nat (max 1 (min n (int (length (avail G st1)))))) (avail G st1))"
    "avail G st' = drop (nat (max 1 (min n (int (length (avail G st1)))))) (avail G st1)"
    by blast
  moreover have "length (take (nat (max 1 (min n (int (length (avail G st1)))))) (avail G st1)) =
                 nat (max 1 (min n (int (length (avail G st1)))))"
    unfolding length_take using L by arith
  moreover have "1 \<le> max 1 (min n (int (length (avail G st1))))" by simp
  moreover have "1 \<le> n \<longrightarrow> max 1 (min n (int (length (avail G st1)))) \<le> n"
    using L by arith
  ultimately show ?thesis by blast
qed


subsection \<open>Evaluating the small instance\<close>

lemma walk_unfold: "0 < k \<Longrightarrow> walk m k p = (if p = 0 then [] else p # walk m (k - 1) (m p))"
  by (cases k) simp_all

lemma slots_from_unfold: "0 < k \<Longrightarrow> slots_from p sz k = p # slots_from (p + sz) sz (k - 1)"
  by (cases k) simp_all

lemmas eval_defs = owned_def heap_ok_def ranges_def span_ok_def flist_def slots_def nobj_def
  base_def bytes_def walk_unfold slots_from_unfold nospan_def

lemma pool_inv_W0: "pool_inv G0 W0"
  unfolding pool_inv_def by (simp add: eval_defs geom_ok_def W0_def G0_def)

lemma pool_inv_W0_8k: "pool_inv G8k W0"
  unfolding pool_inv_def by (simp add: eval_defs geom_ok_def W0_def G8k_def)

lemma pool_inv_W1: "pool_inv G0 W1"
  unfolding pool_inv_def by (simp add: eval_defs geom_ok_def W1_def G0_def)

lemma pool_inv_W2: "pool_inv G0 W2"
  unfolding pool_inv_def by (simp add: eval_defs geom_ok_def W2_def G0_def)

lemma pool_inv_W3: "pool_inv G0 W3"
  unfolding pool_inv_def by (simp add: eval_defs geom_ok_def W3_def G0_def)

lemma avail_W3: "avail G0 W3 = [80, 96, 112]"
  by (simp add: avail_def eval_defs W3_def G0_def)

lemma replenish_W3: "replenish G0 W3 = Inr (True, W3)"
  by (simp add: replenish_def MSpanList_IsEmpty_def) (simp add: W3_def)

theorem C3_AllocList_chain_witness:
  "pool_inv G0 W3 \<and> replenish G0 W3 = Inr (True, W3) \<and>
   (\<exists>first st'. MCentral_AllocList G0 W3 2 = Inr (2, first, st') \<and>
      chain (mem st') first [80, 96] \<and> avail G0 st' = [112])"
  using C3_AllocList_chain [OF pool_inv_W3 replenish_W3, of 2] pool_inv_W3 replenish_W3
  by (simp add: avail_W3)

text \<open>
  The callers request at least one object. The first object is taken before the loop
  looks at the count, so a request below 1 is served like a request of 1.
\<close>

lemma AllocList_zero_request:
  "pool_inv G0 W3 \<and> granted (MCentral_AllocList G0 W3 0) = Some 1"
proof -
  from AllocList_returns [OF pool_inv_W3 replenish_W3, of 0] obtain first st' where
    "MCentral_AllocList G0 W3 0 = Inr (max 1 (min 0 (int (length (avail G0 W3)))), first, st')"
    by blast
  then have "granted (MCentral_AllocList G0 W3 0) = Some 1"
    by (simp add: granted_def avail_W3)
  with pool_inv_W3 show ?thesis by simp
qed

subsection \<open>One span from the heap per batch\<close>

lemma replenish_grows:
  assumes PI: "pool_inv G st" and ne: "nonempty (central st) = []"
    and fs: "freespans st = (g, p) # rest"
  obtains st1 where "replenish G st = Inr (True, st1)" "pool_inv G st1"
    "avail G st1 = slots G st1 g"
    "allfree G st1 = slots G st1 g @ allfree G st"
    "length (slots G st1 g) =
       class_to_allocnpages G (sizeclass (central st)) * 2 ^ PageShift G div
         class_to_size G (sizeclass (central st))"
    "nfree (central st1) = nfree (central st) + int (length (slots G st1 g))"
    "freespans st1 = rest" "inuse st1 = g # inuse st" "owned st1 = g # owned st"
    "ref (span st1 g) = 0" "sizeclass (central st1) = sizeclass (central st)"
    "g \<notin> set (owned st)"
proof -
  from ne have r: "replenish G st = MCentral_Grow G st"
    by (simp add: replenish_def MSpanList_IsEmpty_def)
  from PI refl [of "MCentral_Grow G st"] show ?thesis
  proof (cases rule: Grow_pool)
    case exhausted
    with fs show ?thesis by simp
  next
    case (grown g' p' rest' st1)
    with fs have eq: "g' = g" "p' = p" "rest' = rest" by simp_all
    note gr = grown [unfolded eq]
    have own1: "owned st1 = g # owned st" using gr(4,5) by (simp add: owned_def)
    have g_own: "g \<notin> set (owned st)" using gr(10) pool_invD(3) [OF PI] by auto
    have m: "map (flist G st1) (owned st) = map (flist G st) (owned st)"
      by (rule map_cong [OF refl]) (rule gr(15))
    from m have "concat (map (flist G st1) (owned st)) = concat (map (flist G st) (owned st))"
      by (rule arg_cong)
    then have af: "allfree G st1 = slots G st1 g @ allfree G st"
      unfolding allfree_def own1 using gr(11) by simp
    have av: "avail G st1 = slots G st1 g"
      unfolding avail_def gr(4) ne using gr(11) by simp
    show ?thesis
      by (rule that [OF _ gr(3) av af gr(12) gr(6) gr(8) gr(7) own1 gr(13) gr(9) g_own])
         (simp add: r gr(2))
  qed
qed

lemma AllocList_cases:
  assumes PI: "pool_inv G st" and res: "MCentral_AllocList G st n = Inr (i, first, st')"
  obtains (oom) "replenish G st = Inr (False, st)" "nonempty (central st) = []"
      "freespans st = []" "i = 0" "first = 0" "st' = st"
  | (some) st1 where "replenish G st = Inr (True, st1)" "pool_inv G st1"
      "nonempty (central st1) \<noteq> []"
      "i = max 1 (min n (int (length (avail G st1))))"
      "chain (mem st') first (take (nat i) (avail G st1))"
      "avail G st' = drop (nat i) (avail G st1)"
      "alloc_post G st1 (take (nat i) (avail G st1)) st'"
      "nfree (central st') = nfree (central st1) - i"
proof (cases "replenish G st")
  case (Inl e)
  with res show ?thesis by (simp add: MCentral_AllocList_def)
next
  case (Inr r)
  obtain ok st1 where r: "r = (ok, st1)" by (cases r)
  show ?thesis
  proof (cases ok)
    case False
    with Inr r have g: "MCentral_Grow G st = Inr (False, st1)" and ne: "nonempty (central st) = []"
      by (auto simp: replenish_def MSpanList_IsEmpty_def split: if_splits)
    from PI g have "freespans st = [] \<and> st1 = st"
      by (cases rule: Grow_pool) simp_all
    with res Inr r False ne show ?thesis
      by (intro oom) (simp_all add: MCentral_AllocList_def)
  next
    case True
    with Inr r have rp: "replenish G st = Inr (True, st1)" by simp
    from AllocList_returns [OF PI rp, of n] res
    have "i = max 1 (min n (int (length (avail G st1))))"
      "chain (mem st') first (take (nat i) (avail G st1))"
      "avail G st' = drop (nat i) (avail G st1)"
      "alloc_post G st1 (take (nat i) (avail G st1)) st'"
      "nfree (central st') = nfree (central st1) - i"
      by auto
    with rp replenish_pool(1,2) [OF PI rp] show ?thesis by (intro some)
  qed
qed

text \<open>
  Claim C7, as amended. \<^verbatim>\<open>MCentral_AllocList\<close> asks the heap for at most one span, and
  only on entry, when the nonempty list is empty: with a nonempty list on entry the
  heap is left alone, and after the initial replenishing it is not asked again. When
  the free objects run out partway through the batch the routine stops: it grants
  fewer objects than requested exactly by taking every free object there was, and
  leaves the nonempty list empty.
\<close>

theorem C7_no_grow_mid_batch:
  assumes "pool_inv G st" "MCentral_AllocList G st n = Inr (i, first, st')"
  shows "length (freespans st) \<le> Suc (length (freespans st')) \<and>
    (nonempty (central st) \<noteq> [] \<longrightarrow> freespans st' = freespans st \<and> inuse st' = inuse st) \<and>
    (\<forall>st1. replenish G st = Inr (True, st1) \<longrightarrow>
        freespans st' = freespans st1 \<and> inuse st' = inuse st1 \<and>
        i = max 1 (min n (int (length (avail G st1))))) \<and>
    (0 < i \<and> i < n \<longrightarrow> nonempty (central st') = [] \<and> allfree G st' = [])"
  using assms
proof (cases rule: AllocList_cases)
  case oom
  then show ?thesis by simp
next
  case (some st1)
  note A = alloc_postD [OF some(7)]
  note R = replenish_pool [OF assms(1) some(1)]
  have L: "1 \<le> length (avail G st1)"
    using some(2,3) by (cases "avail G st1") (simp_all add: avail_Nil)
  have dry: "nonempty (central st') = [] \<and> allfree G st' = []" if "i < n"
  proof -
    from that some(4) L have "nat i = length (avail G st1)" by arith
    with some(6) have "avail G st' = []" by simp
    moreover from this set_avail [OF A(1)] have "set (allfree G st') = {}" by simp
    ultimately show ?thesis using A(1) by (simp add: avail_Nil)
  qed
  from R(3,4) A(5,6) some(1,4) dry show ?thesis by auto
qed

theorem C7_no_grow_mid_batch_witness:
  "pool_inv G0 W3 \<and>
   (\<exists>first st'. MCentral_AllocList G0 W3 5 = Inr (3, first, st') \<and>
      nonempty (central st') = [] \<and> freespans st' = [(2, 2)])"
proof -
  from AllocList_returns [OF pool_inv_W3 replenish_W3, of 5] obtain first st' where
    "MCentral_AllocList G0 W3 5 = Inr (max 1 (min 5 (int (length (avail G0 W3)))), first, st')"
    by blast
  then have r: "MCentral_AllocList G0 W3 5 = Inr (3, first, st')"
    by (simp add: avail_W3)
  have "nonempty (central W3) \<noteq> []" "freespans W3 = [(2, 2)]" by (simp_all add: W3_def)
  with C7_no_grow_mid_batch [OF pool_inv_W3 r]
  have "nonempty (central st') = [] \<and> freespans st' = [(2, 2)]" by simp
  with r pool_inv_W3 show ?thesis by blast
qed

theorem C7_grow_again_counterexample:
  "pool_inv G8k W0 \<and> freespans W0 = [(1, 1), (2, 2)] \<and>
   granted (MCentral_AllocList G8k W0 600) = Some 512 \<and>
   map_option freespans (final (MCentral_AllocList G8k W0 600)) = Some [(2, 2)]"
proof -
  have fs: "freespans W0 = (1, 1) # [(2, 2)]" and ne: "nonempty (central W0) = []"
    and sc: "sizeclass (central W0) = 0"
    by (simp_all add: W0_def)
  from replenish_grows [OF pool_inv_W0_8k ne fs] obtain st1 where
    rp: "replenish G8k W0 = Inr (True, st1)" and
    av: "avail G8k st1 = slots G8k st1 1" and
    len: "length (slots G8k st1 1) =
            class_to_allocnpages G8k (sizeclass (central W0)) * 2 ^ PageShift G8k div
              class_to_size G8k (sizeclass (central W0))" and
    fs1: "freespans st1 = [(2, 2)]"
    by blast
  have len': "length (avail G8k st1) = 512"
    unfolding av len by (simp add: G8k_def)
  from AllocList_returns [OF pool_inv_W0_8k rp, of 600] obtain first st' where
    "MCentral_AllocList G8k W0 600 =
       Inr (max 1 (min 600 (int (length (avail G8k st1)))), first, st')" and
    ap: "alloc_post G8k st1 (take (nat (max 1 (min 600 (int (length (avail G8k st1))))))
           (avail G8k st1)) st'"
    by blast
  then have r: "MCentral_AllocList G8k W0 600 = Inr (512, first, st')"
    by (simp add: len')
  from alloc_postD(6) [OF ap] fs1 have "freespans st' = [(2, 2)]" by simp
  with r pool_inv_W0_8k fs show ?thesis by (simp add: granted_def final_def)
qed

subsection \<open>The geometry query and the first batch of a fresh central\<close>

lemma take_slots_from: "take k (slots_from p sz n) = slots_from p sz (min k n)"
proof (induction n arbitrary: p k)
  case 0
  then show ?case by simp
next
  case (Suc n)
  then show ?case by (cases k) simp_all
qed

lemma drop_slots_from: "drop k (slots_from p sz n) = slots_from (p + k * sz) sz (n - k)"
proof (induction n arbitrary: p k)
  case 0
  then show ?case by simp
next
  case (Suc n)
  show ?case
  proof (cases k)
    case 0
    then show ?thesis by simp
  next
    case (Suc j)
    with Suc.IH [of j "p + sz"] show ?thesis by (simp add: ac_simps)
  qed
qed

lemma distinct_single: "distinct xs \<Longrightarrow> set xs \<subseteq> {g} \<Longrightarrow> xs = [] \<or> xs = [g]"
proof (cases xs)
  case Nil
  then show ?thesis by simp
next
  case (Cons a as)
  assume d: "distinct xs" and s: "set xs \<subseteq> {g}"
  from s Cons have a: "a = g" by simp
  have "as = []"
  proof (cases as)
    case Nil
    then show ?thesis .
  next
    case (Cons b bs)
    with s \<open>xs = a # as\<close> have "b = g" by simp
    with d a \<open>xs = a # as\<close> Cons show ?thesis by simp
  qed
  with a Cons show ?thesis by simp
qed

lemma avail_single:
  assumes PI: "pool_inv G st" and own: "set (owned st) = {g}"
  shows "avail G st = flist G st g"
proof -
  from pool_invD(2) [OF PI] have d: "distinct (nonempty (central st))"
    by (simp add: owned_def)
  from own have s: "set (nonempty (central st)) \<subseteq> {g}" by (auto simp: owned_def)
  from distinct_single [OF d s] show ?thesis
  proof
    assume ne: "nonempty (central st) = []"
    with own have "g \<in> set (empty (central st))" by (auto simp: owned_def)
    from flist_empty [OF PI this] ne show ?thesis by (simp add: avail_def)
  next
    assume "nonempty (central st) = [g]"
    then show ?thesis by (simp add: avail_def)
  qed
qed

lemma first_batch_objects:
  assumes PI: "pool_inv G st" and emp: "owned st = []"
    and fs: "freespans st = (g, p) # rest"
  shows "\<exists>first st'.
    MCentral_AllocList G st n =
       Inr (max 1 (min n (int (class_to_allocnpages G (sizeclass (central st)) *
                               2 ^ PageShift G div
                               class_to_size G (sizeclass (central st))))), first, st') \<and>
    pool_inv G st' \<and> set (owned st') = {g} \<and>
    start (span st' g) = p \<and>
    npages (span st' g) = class_to_allocnpages G (sizeclass (central st)) \<and>
    sizeclass (central st') = sizeclass (central st) \<and>
    chain (mem st') first
      (take (nat (max 1 (min n (int (class_to_allocnpages G (sizeclass (central st)) *
                               2 ^ PageShift G div
                               class_to_size G (sizeclass (central st)))))))
            (slots G st' g)) \<and>
    flist G st' g =
      drop (nat (max 1 (min n (int (class_to_allocnpages G (sizeclass (central st)) *
                               2 ^ PageShift G div
                               class_to_size G (sizeclass (central st)))))))
           (slots G st' g) \<and>
    int (ref (span st' g)) =
      max 1 (min n (int (class_to_allocnpages G (sizeclass (central st)) *
                               2 ^ PageShift G div
                               class_to_size G (sizeclass (central st))))) \<and>
    nfree (central st') = nfree (central st) +
        int (class_to_allocnpages G (sizeclass (central st)) * 2 ^ PageShift G div
             class_to_size G (sizeclass (central st))) -
        max 1 (min n (int (class_to_allocnpages G (sizeclass (central st)) *
                               2 ^ PageShift G div
                               class_to_size G (sizeclass (central st))))) \<and>
    freespans st' = rest \<and> inuse st' = g # inuse st"
proof -
  let ?N = "class_to_allocnpages G (sizeclass (central st)) * 2 ^ PageShift G div
              class_to_size G (sizeclass (central st))"
  from emp have ne: "nonempty (central st) = []" by (simp add: owned_def)
  then have r: "replenish G st = MCentral_Grow G st"
    by (simp add: replenish_def MSpanList_IsEmpty_def)
  have pos: "\<forall>(s, p) \<in> set (freespans st). 0 < p"
    using pool_invD(4) [OF PI] by (simp add: heap_ok_def)
  from PI refl [of "MCentral_Grow G st"] show ?thesis
  proof (cases rule: Grow_pool)
    case exhausted
    with fs show ?thesis by simp
  next
    case (grown g' p' rest' st1)
    with fs have eq: "g' = g" "p' = p" "rest' = rest" by simp_all
    note Gr = grown [unfolded eq]
    have gr: "MCentral_Grow G st = Inr (True, st1)" by (rule Gr(2))
    with r have rp: "replenish G st = Inr (True, st1)" by simp
    have sp: "start (span st1 g) = p \<and>
              npages (span st1 g) = class_to_allocnpages G (sizeclass (central st))"
      using gr pool_invD(1) [OF PI] pos
    proof (cases rule: MCentral_Grow_cases)
      case exhausted
      with fs show ?thesis by simp
    next
      case (grown s q rest'' st'')
      with fs show ?thesis by simp
    qed
    note PI1 = Gr(3)
    have own1: "owned st1 = [g]" using Gr(4,5) emp by (simp add: owned_def)
    have av: "avail G st1 = slots G st1 g"
      unfolding avail_def Gr(4) ne using Gr(11) by simp
    have L: "length (avail G st1) = ?N" unfolding av by (rule Gr(12))
    let ?i = "max 1 (min n (int ?N))"
    let ?zs = "take (nat ?i) (slots G st1 g)"
    from AllocList_returns [OF PI rp, of n] obtain first st' where
      res0: "MCentral_AllocList G st n =
         Inr (max 1 (min n (int (length (avail G st1)))), first, st')" and
      ch0: "chain (mem st') first
         (take (nat (max 1 (min n (int (length (avail G st1)))))) (avail G st1))" and
      dr0: "avail G st' = drop (nat (max 1 (min n (int (length (avail G st1)))))) (avail G st1)" and
      ap0: "alloc_post G st1
         (take (nat (max 1 (min n (int (length (avail G st1)))))) (avail G st1)) st'" and
      nf0: "nfree (central st') =
         nfree (central st1) - max 1 (min n (int (length (avail G st1))))"
      by blast
    note res = res0 [unfolded L] and ch = ch0 [unfolded L, unfolded av]
      and dr = dr0 [unfolded L, unfolded av] and ap = ap0 [unfolded L, unfolded av]
      and nf = nf0 [unfolded L]
    note A = alloc_postD [OF ap]
    have own': "set (owned st') = {g}" using A(8) own1 by simp
    have sl: "slots G st' g = slots G st1 g"
      by (rule slots_cong) (simp_all add: A(7,9,10))
    have fl: "flist G st' g = drop (nat ?i) (slots G st' g)"
      using avail_single [OF A(1) own'] dr sl by simp
    from pool_invD(1) [OF PI1] have sz: "0 < class_to_size G (sizeclass (central st1))"
      by (simp add: geom_ok_def)
    have "\<And>x. x \<in> set ?zs \<Longrightarrow> inspan G (span st1 g) x"
    proof -
      fix x
      assume "x \<in> set ?zs"
      then have "x \<in> set (slots G st1 g)" by (rule in_set_takeD)
      with sz show "inspan G (span st1 g) x" by (rule slots_inspan)
    qed
    then have "\<forall>x \<in> set ?zs. inspan G (span st1 g) x" by blast
    then have "filter (inspan G (span st1 g)) ?zs = ?zs" by (rule filter_True)
    moreover from own1 have "g \<in> set (owned st1)" by simp
    ultimately have "ref (span st' g) = length ?zs" using A(11) Gr(13) by simp
    moreover from Gr(12) geom_ok_nobj [OF pool_invD(1) [OF PI]]
    have "int (length ?zs) = ?i" unfolding length_take by simp
    ultimately have rf: "int (ref (span st' g)) = ?i" by simp
    show ?thesis
    proof (intro exI conjI)
      show "MCentral_AllocList G st n = Inr (?i, first, st')" by (rule res)
      show "pool_inv G st'" by (rule A(1))
      show "set (owned st') = {g}" by (rule own')
      show "start (span st' g) = p" using A(9) sp by simp
      show "npages (span st' g) = class_to_allocnpages G (sizeclass (central st))"
        using A(10) sp by simp
      show "sizeclass (central st') = sizeclass (central st)" using A(7) Gr(9) by simp
      show "chain (mem st') first (take (nat ?i) (slots G st' g))" using ch sl by simp
      show "flist G st' g = drop (nat ?i) (slots G st' g)" by (rule fl)
      show "int (ref (span st' g)) = ?i" by (rule rf)
      show "nfree (central st') = nfree (central st) + int ?N - ?i"
        using nf Gr(6) Gr(12) by simp
      show "freespans st' = rest" using A(6) Gr(8) by simp
      show "inuse st' = g # inuse st" using A(5) Gr(7) by simp
    qed
  qed
qed

text \<open>
  Claim C9. \<^verbatim>\<open>MGetSizeClassInfo\<close> is a function of the geometry tables alone; it
  returns the object size and the page count of the table and, where the byte count of
  the span fits an \<^verbatim>\<open>int32\<close> and the size is not zero, the object count
  \<open>(npages * 2 ^ PageShift) div size\<close>. With 16-byte objects, one page per span and pages
  of \<open>2 ^ 13 = 8192\<close> bytes this is 512 objects per span, and the first
  \<^verbatim>\<open>MCentral_AllocList\<close> of 10 objects on a central with no span takes exactly one span
  from the heap, grants 10 objects and leaves the counter at 502. The objects granted
  are the first 10 blocks of the new span, chained in this order from \<^verbatim>\<open>*pfirst\<close> to
  \<^verbatim>\<open>nil\<close>; the span counts them in \<open>ref\<close>, and its free list holds the other 502
  blocks, in order.
\<close>

theorem C9_geometry_and_first_batch:
  "(0 < class_to_size G sc \<and> class_to_allocnpages G sc * 2 ^ PageShift G < 2 ^ 31 \<longrightarrow>
      MGetSizeClassInfo G sc =
        Some (class_to_size G sc, class_to_allocnpages G sc,
              int (class_to_allocnpages G sc * 2 ^ PageShift G div class_to_size G sc))) \<and>
   (class_to_size G sc = 16 \<and> class_to_allocnpages G sc = 1 \<and> PageShift G = 13 \<longrightarrow>
      MGetSizeClassInfo G sc = Some (16, 1, 512) \<and>
      (\<forall>st g p rest.
         pool_inv G st \<and> sizeclass (central st) = sc \<and> owned st = [] \<and>
         nfree (central st) = 0 \<and> freespans st = (g, p) # rest \<longrightarrow>
         (\<exists>first st'. MCentral_AllocList G st 10 = Inr (10, first, st') \<and>
            nfree (central st') = 502 \<and>
            freespans st' = rest \<and> inuse st' = g # inuse st \<and> set (owned st') = {g} \<and>
            start (span st' g) = p \<and> npages (span st' g) = 1 \<and>
            first = p * 2 ^ 13 \<and>
            chain (mem st') first (slots_from (p * 2 ^ 13) 16 10) \<and>
            ref (span st' g) = 10 \<and>
            flist G st' g = slots_from (p * 2 ^ 13 + 160) 16 502 \<and>
            pool_inv G st')))"
proof (intro conjI impI allI)
  assume "0 < class_to_size G sc \<and> class_to_allocnpages G sc * 2 ^ PageShift G < 2 ^ 31"
  then show "MGetSizeClassInfo G sc =
        Some (class_to_size G sc, class_to_allocnpages G sc,
              int (class_to_allocnpages G sc * 2 ^ PageShift G div class_to_size G sc))"
    by (intro MGetSizeClassInfo_formula) simp_all
next
  assume g: "class_to_size G sc = 16 \<and> class_to_allocnpages G sc = 1 \<and> PageShift G = 13"
  then have "0 < class_to_size G sc" "class_to_allocnpages G sc * 2 ^ PageShift G < 2 ^ 31"
    by simp_all
  from MGetSizeClassInfo_formula [OF this] g
  show "MGetSizeClassInfo G sc = Some (16, 1, 512)" by simp
next
  fix st g p rest
  assume g: "class_to_size G sc = 16 \<and> class_to_allocnpages G sc = 1 \<and> PageShift G = 13"
    and h: "pool_inv G st \<and> sizeclass (central st) = sc \<and> owned st = [] \<and>
         nfree (central st) = 0 \<and> freespans st = (g, p) # rest"
  then have PI: "pool_inv G st" and emp: "owned st = []" and fs: "freespans st = (g, p) # rest"
    and sc: "sizeclass (central st) = sc" and z: "nfree (central st) = 0"
    by simp_all
  let ?N = "class_to_allocnpages G (sizeclass (central st)) * 2 ^ PageShift G div
             class_to_size G (sizeclass (central st))"
  from g sc have N: "?N = 512" by simp
  have i: "max 1 (min 10 (int ?N)) = 10" unfolding N by simp
  from first_batch_objects [OF PI emp fs, of 10] obtain first st' where H:
    "MCentral_AllocList G st 10 = Inr (max 1 (min 10 (int ?N)), first, st') \<and>
     pool_inv G st' \<and> set (owned st') = {g} \<and>
     start (span st' g) = p \<and>
     npages (span st' g) = class_to_allocnpages G (sizeclass (central st)) \<and>
     sizeclass (central st') = sizeclass (central st) \<and>
     chain (mem st') first (take (nat (max 1 (min 10 (int ?N)))) (slots G st' g)) \<and>
     flist G st' g = drop (nat (max 1 (min 10 (int ?N)))) (slots G st' g) \<and>
     int (ref (span st' g)) = max 1 (min 10 (int ?N)) \<and>
     nfree (central st') = nfree (central st) + int ?N - max 1 (min 10 (int ?N)) \<and>
     freespans st' = rest \<and> inuse st' = g # inuse st"
    by blast
  note H' = H [unfolded i]
  from H' have res: "MCentral_AllocList G st 10 = Inr (10, first, st')"
    and PI': "pool_inv G st'" and own': "set (owned st') = {g}"
    and st: "start (span st' g) = p"
    and np: "npages (span st' g) = class_to_allocnpages G (sizeclass (central st))"
    and scl: "sizeclass (central st') = sizeclass (central st)"
    and ch: "chain (mem st') first (take (nat 10) (slots G st' g))"
    and fl: "flist G st' g = drop (nat 10) (slots G st' g)"
    and rf: "int (ref (span st' g)) = 10"
    and nf: "nfree (central st') = nfree (central st) + int ?N - 10"
    and fs': "freespans st' = rest" and iu: "inuse st' = g # inuse st"
    by simp_all
  have sl: "slots G st' g = slots_from (p * 2 ^ 13) 16 512"
    using g sc scl st np by (simp add: slots_def nobj_def base_def bytes_def)
  have ch': "chain (mem st') first (slots_from (p * 2 ^ 13) 16 10)"
    using ch unfolding sl take_slots_from by simp
  have fl': "flist G st' g = slots_from (p * 2 ^ 13 + 160) 16 502"
    using fl unfolding sl drop_slots_from by simp
  have "slots_from (p * 2 ^ 13) 16 10 = p * 2 ^ 13 # slots_from (p * 2 ^ 13 + 16) 16 9"
    by (simp add: slots_from_unfold)
  with ch' have first: "first = p * 2 ^ 13" by simp
  from rf have rf': "ref (span st' g) = 10" by simp
  from nf z N have nf': "nfree (central st') = 502" by simp
  from np g sc have np': "npages (span st' g) = 1" by simp
  from res nf' fs' iu own' st np' first ch' rf' fl' PI'
  have "MCentral_AllocList G st 10 = Inr (10, first, st') \<and>
            nfree (central st') = 502 \<and>
            freespans st' = rest \<and> inuse st' = g # inuse st \<and> set (owned st') = {g} \<and>
            start (span st' g) = p \<and> npages (span st' g) = 1 \<and>
            first = p * 2 ^ 13 \<and>
            chain (mem st') first (slots_from (p * 2 ^ 13) 16 10) \<and>
            ref (span st' g) = 10 \<and>
            flist G st' g = slots_from (p * 2 ^ 13 + 160) 16 502 \<and>
            pool_inv G st'"
    by blast
  then show "\<exists>first st'. MCentral_AllocList G st 10 = Inr (10, first, st') \<and>
            nfree (central st') = 502 \<and>
            freespans st' = rest \<and> inuse st' = g # inuse st \<and> set (owned st') = {g} \<and>
            start (span st' g) = p \<and> npages (span st' g) = 1 \<and>
            first = p * 2 ^ 13 \<and>
            chain (mem st') first (slots_from (p * 2 ^ 13) 16 10) \<and>
            ref (span st' g) = 10 \<and>
            flist G st' g = slots_from (p * 2 ^ 13 + 160) 16 502 \<and>
            pool_inv G st'"
    by blast
qed

theorem C9_geometry_and_first_batch_witness:
  "class_to_size G8k 0 = 16 \<and> class_to_allocnpages G8k 0 = 1 \<and> PageShift G8k = 13 \<and>
   pool_inv G8k W0 \<and> sizeclass (central W0) = 0 \<and> owned W0 = [] \<and>
   nfree (central W0) = 0 \<and> freespans W0 = (1, 1) # [(2, 2)] \<and>
   MGetSizeClassInfo G8k 0 = Some (16, 1, 512) \<and>
   (\<exists>first st'. MCentral_AllocList G8k W0 10 = Inr (10, first, st') \<and>
      nfree (central st') = 502 \<and> freespans st' = [(2, 2)] \<and> inuse st' = [1] \<and>
      first = 8192 \<and> chain (mem st') 8192 (slots_from 8192 16 10) \<and>
      ref (span st' 1) = 10 \<and> flist G8k st' 1 = slots_from 8352 16 502)"
proof -
  have g: "class_to_size G8k 0 = 16 \<and> class_to_allocnpages G8k 0 = 1 \<and> PageShift G8k = 13"
    by (simp add: G8k_def)
  have w: "sizeclass (central W0) = 0" "owned W0 = []" "nfree (central W0) = 0"
    "freespans W0 = (1, 1) # [(2, 2)]" "inuse W0 = []"
    by (simp_all add: W0_def owned_def)
  from C9_geometry_and_first_batch [of G8k 0] g
  have info: "MGetSizeClassInfo G8k 0 = Some (16, 1, 512)"
    and batch: "\<And>st g p rest.
         pool_inv G8k st \<and> sizeclass (central st) = 0 \<and> owned st = [] \<and>
         nfree (central st) = 0 \<and> freespans st = (g, p) # rest \<Longrightarrow>
         (\<exists>first st'. MCentral_AllocList G8k st 10 = Inr (10, first, st') \<and>
            nfree (central st') = 502 \<and>
            freespans st' = rest \<and> inuse st' = g # inuse st \<and> set (owned st') = {g} \<and>
            start (span st' g) = p \<and> npages (span st' g) = 1 \<and>
            first = p * 2 ^ 13 \<and>
            chain (mem st') first (slots_from (p * 2 ^ 13) 16 10) \<and>
            ref (span st' g) = 10 \<and>
            flist G8k st' g = slots_from (p * 2 ^ 13 + 160) 16 502 \<and>
            pool_inv G8k st')"
    by blast+
  from batch [of W0 1 1 "[(2, 2)]"] pool_inv_W0_8k w
  have "\<exists>first st'. MCentral_AllocList G8k W0 10 = Inr (10, first, st') \<and>
      nfree (central st') = 502 \<and> freespans st' = [(2, 2)] \<and> inuse st' = [1] \<and>
      first = 8192 \<and> chain (mem st') 8192 (slots_from 8192 16 10) \<and>
      ref (span st' 1) = 10 \<and> flist G8k st' 1 = slots_from 8352 16 502"
    by auto
  with g pool_inv_W0_8k w info show ?thesis by simp
qed

subsection \<open>One free in a well-formed central\<close>

lemma MCentral_Free_Inr:
  assumes "MHeap_Lookup G st v = Some s" "ref (span st s) \<noteq> 0" "v \<noteq> 0"
    "class_to_size G (sizeclass (central st)) \<noteq> 0"
  shows "\<exists>st'. MCentral_Free G st v = Inr st'"
proof (cases "freelist (span st s) = 0")
  case True
  with assms show ?thesis
    by (simp add: MCentral_Free_def Let_def MSpanList_Remove_def)
next
  case False
  with assms show ?thesis
    by (simp add: MCentral_Free_def Let_def MSpanList_Remove_def)
qed

text \<open>A span with an allocated block has a positive \<open>ref\<close>.\<close>

lemma live_ref:
  assumes PI: "pool_inv G st" and s: "s \<in> set (owned st)"
    and xs: "distinct xs" "set xs \<subseteq> set (slots G st s)" "set xs \<inter> set (flist G st s) = {}"
  shows "length xs \<le> ref (span st s)"
proof -
  note ok = pool_invD(5) [OF PI s]
  from pool_invD(1) [OF PI] have sz: "0 < class_to_size G (sizeclass (central st))"
    by (simp add: geom_ok_def)
  have d: "distinct (xs @ flist G st s)"
    using xs(1,3) flist_distinct [OF PI s] by simp
  have "set (xs @ flist G st s) \<subseteq> set (slots G st s)"
    using xs(2) span_okD(2) [OF ok] by simp
  then have "card (set (xs @ flist G st s)) \<le> card (set (slots G st s))"
    by (intro card_mono) simp_all
  also have "card (set (slots G st s)) = nobj G st s"
    using distinct_card [OF distinct_slots [OF sz, of s]] by simp
  finally have "length (xs @ flist G st s) \<le> nobj G st s"
    using distinct_card [OF d] by simp
  with span_okD(3) [OF ok] show ?thesis by simp
qed

lemma Free_pool:
  assumes PI: "pool_inv G st" and s: "s \<in> set (owned st)"
    and v_slot: "v \<in> set (slots G st s)" and v_live: "v \<notin> set (flist G st s)"
  obtains st' where "MCentral_Free G st v = Inr st'" "pool_inv G st'"
    "0 < ref (span st s)" "inspan G (span st s) v"
    "freespans st' = freespans st" "sizeclass (central st') = sizeclass (central st)"
    "\<And>t. start (span st' t) = start (span st t)"
    "\<And>t. npages (span st' t) = npages (span st t)"
    "\<And>t. t \<noteq> s \<Longrightarrow> span st' t = span st t"
    "\<And>t. t \<in> set (owned st) \<Longrightarrow> t \<noteq> s \<Longrightarrow> flist G st' t = flist G st t"
    "ref (span st s) = 1 \<Longrightarrow>
       set (owned st') = set (owned st) - {s} \<and> inuse st' = removeAll s (inuse st) \<and>
       nfree (central st') = nfree (central st) + 1 - int (nobj G st s)"
    "ref (span st s) \<noteq> 1 \<Longrightarrow>
       set (owned st') = set (owned st) \<and> inuse st' = inuse st \<and>
       nfree (central st') = nfree (central st) + 1 \<and>
       flist G st' s = v # flist G st s \<and> ref (span st' s) = ref (span st s) - 1"
proof -
  let ?sz = "class_to_size G (sizeclass (central st))"
  note ok = pool_invD(5) [OF PI s]
  from pool_invD(1) [OF PI] have sz: "0 < ?sz" by (simp add: geom_ok_def)
  have v_in: "inspan G (span st s) v" by (rule slots_inspan [OF sz v_slot])
  from pool_invD(3) [OF PI] s have s_inuse: "s \<in> set (inuse st)" by blast
  have look: "MHeap_Lookup G st v = Some s"
    by (rule MHeap_Lookup_inuse [OF pool_invD(4) [OF PI] s_inuse v_in])
  from live_ref [OF PI s, of "[v]"] v_slot v_live have rpos: "0 < ref (span st s)" by simp
  from span_okD(5) [OF ok] have "0 < base G (span st s)" by (simp add: base_def)
  with v_in have v0: "v \<noteq> 0" by (simp add: inspan_def)
  from v_in have b_in: "inspan G (span st s) (base G (span st s))" by (simp add: inspan_def)
  from MCentral_Free_Inr [OF look _ v0] rpos sz obtain st' where
    fr: "MCentral_Free G st v = Inr st'" by auto
  have hp': "heap_ok G st'" by (rule heap_ok_Free [OF pool_invD(4) [OF PI] fr])
  have dist: "distinct (nonempty (central st) @ empty (central st))"
    using pool_invD(2) [OF PI] by (simp add: owned_def)
  let ?fl = "flist G st s"
  text \<open>Free lists of the other spans lie outside the span of \<open>v\<close>.\<close>
  have other: "\<And>t x. t \<in> set (owned st) \<Longrightarrow> t \<noteq> s \<Longrightarrow> x \<in> set (flist G st t) \<Longrightarrow>
                 x \<noteq> v \<and> x \<noteq> base G (span st s)"
  proof -
    fix t x
    assume t: "t \<in> set (owned st)" "t \<noteq> s" and x: "x \<in> set (flist G st t)"
    from flist_other [OF PI s t(1) _ v_in] t(2) have "v \<notin> set (flist G st t)" by blast
    moreover from flist_other [OF PI s t(1) _ b_in] t(2)
    have "base G (span st s) \<notin> set (flist G st t)" by blast
    ultimately show "x \<noteq> v \<and> x \<noteq> base G (span st s)" using x by blast
  qed
  from fr show ?thesis
  proof (cases rule: MCentral_Free_cases)
    case (keep s')
    with look have s': "s' = s" by simp
    note k = keep [unfolded s']
    have scl: "sizeclass (central st') = sizeclass (central st)" using k(4) by simp
    have nob: "\<And>t. nobj G st' t = nobj G st t" using k(6) scl by (simp add: nobj_def)
    have sl: "\<And>t. slots G st' t = slots G st t" using k(6) scl nob by (simp add: slots_def)
    have ne': "set (nonempty (central st')) =
                 (if freelist (span st s) = 0 then insert s (set (nonempty (central st)))
                  else set (nonempty (central st)))"
      and em': "set (empty (central st')) =
                 (if freelist (span st s) = 0 then set (empty (central st)) - {s}
                  else set (empty (central st)))"
      using k(4) by auto
    have own': "set (owned st') = set (owned st)"
      using ne' em' s by (auto simp: owned_def)
    have dist': "distinct (owned st')"
      using k(4) dist by (auto simp: owned_def distinct_removeAll)
    have chs: "chain (mem st') (freelist (span st s)) ?fl"
    proof -
      have "chain ((mem st)(v := freelist (span st s))) (freelist (span st s)) ?fl =
            chain (mem st) (freelist (span st s)) ?fl"
      proof (rule chain_cong)
        fix x
        assume "x \<in> set ?fl"
        with v_live have "x \<noteq> v" by blast
        then show "((mem st)(v := freelist (span st s))) x = mem st x" by simp
      qed
      with span_okD(1) [OF ok] show ?thesis unfolding k(5) by simp
    qed
    then have ch': "chain (mem st') v (v # ?fl)" using v0 k(5) by simp
    have len: "length (v # ?fl) \<le> nobj G st s"
      using span_okD(3) [OF ok] k(2) by simp
    have "flist G st' s = walk (mem st') (nobj G st s) v"
      by (simp add: flist_def [of G st'] nob k(6))
    with chain_walk [OF ch' len] have fl_s: "flist G st' s = v # ?fl" by simp
    have fl_t: "\<And>t. t \<in> set (owned st) \<Longrightarrow> t \<noteq> s \<Longrightarrow> flist G st' t = flist G st t"
    proof (rule flist_frame)
      fix t
      assume t: "t \<in> set (owned st)" "t \<noteq> s"
      show "freelist (span st' t) = freelist (span st t)" using k(6) t(2) by simp
      show "nobj G st' t = nobj G st t" by (rule nob)
      show "\<And>x. x \<in> set (flist G st t) \<Longrightarrow> mem st' x = mem st x"
        using other [OF t] k(5) by simp
    qed
    have ok_s: "span_ok G st' s"
      unfolding span_ok_def fl_s sl nob
      using ch' span_okD [OF ok] v_slot k(2,6) ne' scl v0
      by (auto simp: )
    have ok_t: "\<And>t. t \<in> set (owned st') \<Longrightarrow> span_ok G st' t"
    proof -
      fix t
      assume "t \<in> set (owned st')"
      with own' have t: "t \<in> set (owned st)" by simp
      show "span_ok G st' t"
      proof (cases "t = s")
        case True
        with ok_s show ?thesis by simp
      next
        case False
        have e: "span st' t = span st t" using k(6) False by simp
        have m: "(t \<in> set (nonempty (central st'))) = (t \<in> set (nonempty (central st)))"
          using ne' False by (auto split: if_splits)
        show ?thesis
          by (rule span_ok_frame [OF e scl m _ pool_invD(5) [OF PI t]])
             (use other [OF t False] k(5) in simp)
      qed
    qed
    have PI': "pool_inv G st'"
      unfolding pool_inv_def
      using pool_invD(1,3) [OF PI] scl dist' own' hp' ok_t k(7) by simp
    show ?thesis
    proof (rule that [OF fr PI' rpos v_in k(8) scl])
      show "\<And>t. start (span st' t) = start (span st t)" using k(6) by simp
      show "\<And>t. npages (span st' t) = npages (span st t)" using k(6) by simp
      show "\<And>t. t \<noteq> s \<Longrightarrow> span st' t = span st t" using k(6) by simp
      show "\<And>t. t \<in> set (owned st) \<Longrightarrow> t \<noteq> s \<Longrightarrow> flist G st' t = flist G st t" by (rule fl_t)
      show "ref (span st s) = 1 \<Longrightarrow>
         set (owned st') = set (owned st) - {s} \<and> inuse st' = removeAll s (inuse st) \<and>
         nfree (central st') = nfree (central st) + 1 - int (nobj G st s)"
        using k(2) by simp
      show "ref (span st s) \<noteq> 1 \<Longrightarrow>
         set (owned st') = set (owned st) \<and> inuse st' = inuse st \<and>
         nfree (central st') = nfree (central st) + 1 \<and>
         flist G st' s = v # flist G st s \<and> ref (span st' s) = ref (span st s) - 1"
        using own' k(4,6,7) fl_s by simp
    qed
  next
    case (release s')
    with look have s': "s' = s" by simp
    note r = release [unfolded s']
    have scl: "sizeclass (central st') = sizeclass (central st)" using r(5) by simp
    have ne': "set (nonempty (central st')) = set (nonempty (central st)) - {s}"
      and em': "set (empty (central st')) = set (empty (central st)) - {s}"
      using r(5) by auto
    have own': "set (owned st') = set (owned st) - {s}"
      using ne' em' by (auto simp: owned_def)
    have dist': "distinct (owned st')"
      using r(5) dist by (auto simp: owned_def distinct_removeAll)
    have nob: "\<And>t. nobj G st' t = nobj G st t" using r(7) scl by (simp add: nobj_def)
    have fl_t: "\<And>t. t \<in> set (owned st) \<Longrightarrow> t \<noteq> s \<Longrightarrow> flist G st' t = flist G st t"
    proof (rule flist_frame)
      fix t
      assume t: "t \<in> set (owned st)" "t \<noteq> s"
      show "freelist (span st' t) = freelist (span st t)" using r(7) t(2) by simp
      show "nobj G st' t = nobj G st t" by (rule nob)
      show "\<And>x. x \<in> set (flist G st t) \<Longrightarrow> mem st' x = mem st x"
        using other [OF t] r(6) by simp
    qed
    have ok_t: "\<And>t. t \<in> set (owned st') \<Longrightarrow> span_ok G st' t"
    proof -
      fix t
      assume "t \<in> set (owned st')"
      with own' have t: "t \<in> set (owned st)" and ts: "t \<noteq> s" by auto
      have e: "span st' t = span st t" using r(7) ts by simp
      have m: "(t \<in> set (nonempty (central st'))) = (t \<in> set (nonempty (central st)))"
        using ne' ts by auto
      show "span_ok G st' t"
        by (rule span_ok_frame [OF e scl m _ pool_invD(5) [OF PI t]])
           (use other [OF t ts] r(6) in simp)
    qed
    have sub: "set (owned st') \<subseteq> set (inuse st')"
      using own' r(8) pool_invD(3) [OF PI] by auto
    have PI': "pool_inv G st'"
      unfolding pool_inv_def
      using pool_invD(1) [OF PI] scl dist' sub hp' ok_t by simp
    show ?thesis
    proof (rule that [OF fr PI' rpos v_in r(9) scl])
      show "\<And>t. start (span st' t) = start (span st t)" using r(7) by simp
      show "\<And>t. npages (span st' t) = npages (span st t)" using r(7) by simp
      show "\<And>t. t \<noteq> s \<Longrightarrow> span st' t = span st t" using r(7) by simp
      show "\<And>t. t \<in> set (owned st) \<Longrightarrow> t \<noteq> s \<Longrightarrow> flist G st' t = flist G st t" by (rule fl_t)
      show "ref (span st s) = 1 \<Longrightarrow>
         set (owned st') = set (owned st) - {s} \<and> inuse st' = removeAll s (inuse st) \<and>
         nfree (central st') = nfree (central st) + 1 - int (nobj G st s)"
        using own' r(5,8) by (simp add: nobj_def)
      show "ref (span st s) \<noteq> 1 \<Longrightarrow>
         set (owned st') = set (owned st) \<and> inuse st' = inuse st \<and>
         nfree (central st') = nfree (central st) + 1 \<and>
         flist G st' s = v # flist G st s \<and> ref (span st' s) = ref (span st s) - 1"
        using r(2) by simp
    qed
  qed
qed

subsection \<open>The counter\<close>

lemma counter_ok_Free:
  assumes PI: "pool_inv G st" and CO: "counter_ok G st" and s: "s \<in> set (owned st)"
    and v_slot: "v \<in> set (slots G st s)" and v_live: "v \<notin> set (flist G st s)"
    and fr: "MCentral_Free G st v = Inr st'"
  shows "counter_ok G st'"
proof -
  from Free_pool [OF PI s v_slot v_live] fr obtain
    PI': "pool_inv G st'" and
    oth: "\<And>t. t \<in> set (owned st) \<Longrightarrow> t \<noteq> s \<Longrightarrow> flist G st' t = flist G st t" and
    rel: "ref (span st s) = 1 \<Longrightarrow>
       set (owned st') = set (owned st) - {s} \<and> inuse st' = removeAll s (inuse st) \<and>
       nfree (central st') = nfree (central st) + 1 - int (nobj G st s)" and
    kp: "ref (span st s) \<noteq> 1 \<Longrightarrow>
       set (owned st') = set (owned st) \<and> inuse st' = inuse st \<and>
       nfree (central st') = nfree (central st) + 1 \<and>
       flist G st' s = v # flist G st s \<and> ref (span st' s) = ref (span st s) - 1"
    by auto
  have fin: "finite (set (owned st))" by simp
  let ?S = "\<Sum>t \<in> set (owned st). length (flist G st t)"
  let ?R = "\<Sum>t \<in> set (owned st) - {s}. length (flist G st t)"
  have S: "?S = length (flist G st s) + ?R" by (rule sum.remove [OF fin s])
  have R': "(\<Sum>t \<in> set (owned st) - {s}. length (flist G st' t)) = ?R"
    by (rule sum.cong) (simp_all add: oth)
  from CO have nf: "nfree (central st) = int ?S"
    by (simp add: counter_ok_def length_allfree [OF pool_invD(2) [OF PI]])
  have len': "length (allfree G st') = (\<Sum>t \<in> set (owned st'). length (flist G st' t))"
    by (rule length_allfree [OF pool_invD(2) [OF PI']])
  show ?thesis
  proof (cases "ref (span st s) = 1")
    case True
    from span_okD(3) [OF pool_invD(5) [OF PI s]] True
    have n: "nobj G st s = Suc (length (flist G st s))" by simp
    from rel [OF True] have "length (allfree G st') = ?R"
      unfolding len' using R' by simp
    moreover from rel [OF True] nf S n have "nfree (central st') = int ?R" by simp
    ultimately show ?thesis by (simp add: counter_ok_def)
  next
    case False
    from kp [OF False] have own: "set (owned st') = set (owned st)"
      and fl: "flist G st' s = v # flist G st s"
      and nf': "nfree (central st') = nfree (central st) + 1" by simp_all
    have "length (allfree G st') = length (flist G st' s) +
            (\<Sum>t \<in> set (owned st) - {s}. length (flist G st' t))"
      unfolding len' own by (rule sum.remove [OF fin s])
    with R' fl S have "length (allfree G st') = Suc ?S" by simp
    with nf nf' show ?thesis by (simp add: counter_ok_def)
  qed
qed

lemma counter_ok_store:
  assumes "pool_inv G st" "counter_ok G st" "a \<notin> set (allfree G st)"
  shows "counter_ok G (st\<lparr>mem := (mem st)(a := b)\<rparr>)"
  using assms(2) pool_inv_store(4) [OF assms(1,3), of b] by (simp add: counter_ok_def)

lemma counter_ok_Grow:
  assumes PI: "pool_inv G st" and CO: "counter_ok G st"
    and gr: "MCentral_Grow G st = Inr (ok, st')"
  shows "pool_inv G st' \<and> counter_ok G st'"
  using PI gr
proof (cases rule: Grow_pool)
  case exhausted
  with PI CO show ?thesis by simp
next
  case (grown g p rest st'')
  then have e: "st'' = st'" by simp
  note g = grown [unfolded e]
  have own: "owned st' = g # owned st" using g(4,5) by (simp add: owned_def)
  have "map (flist G st') (owned st) = map (flist G st) (owned st)"
    by (rule map_cong [OF refl]) (rule g(15))
  then have "concat (map (flist G st') (owned st)) = concat (map (flist G st) (owned st))"
    by (rule arg_cong)
  then have "allfree G st' = slots G st' g @ allfree G st"
    unfolding allfree_def own using g(11) by simp
  then have "length (allfree G st') = length (slots G st' g) + length (allfree G st)"
    by (simp only: length_append)
  with CO g(6) have "counter_ok G st'" by (simp add: counter_ok_def)
  with g(3) show ?thesis by simp
qed

lemma counter_ok_AllocList:
  assumes PI: "pool_inv G st" and CO: "counter_ok G st"
    and res: "MCentral_AllocList G st n = Inr (i, first, st')"
  shows "pool_inv G st' \<and> counter_ok G st'"
  using PI res
proof (cases rule: AllocList_cases)
  case oom
  with PI CO show ?thesis by simp
next
  case (some st1)
  note A = alloc_postD [OF some(7)]
  have CO1: "counter_ok G st1"
  proof (cases "nonempty (central st) = []")
    case False
    from replenish_pool(4) [OF PI some(1) False] CO show ?thesis by simp
  next
    case True
    with some(1) have "MCentral_Grow G st = Inr (True, st1)"
      by (simp add: replenish_def MSpanList_IsEmpty_def)
    from counter_ok_Grow [OF PI CO this] show ?thesis by simp
  qed
  have L: "1 \<le> length (avail G st1)"
    using some(2,3) by (cases "avail G st1") (simp_all add: avail_Nil)
  have "length (take (nat i) (avail G st1)) = nat i"
    unfolding length_take using some(4) L by arith
  with A(4) have "length (allfree G st1) = nat i + length (allfree G st')" by simp
  moreover have "0 \<le> i" using some(4) by simp
  ultimately have "counter_ok G st'"
    using CO1 some(8) by (simp add: counter_ok_def)
  with A(1) show ?thesis by simp
qed

subsection \<open>Freeing a batch of allocated objects\<close>

lemma allocatedE:
  assumes "allocated G st x"
  obtains s where "s \<in> set (owned st)" "x \<in> set (slots G st s)" "x \<notin> set (flist G st s)"
  using assms unfolding allocated_def by blast

lemma allocatedI:
  "s \<in> set (owned st) \<Longrightarrow> x \<in> set (slots G st s) \<Longrightarrow> x \<notin> set (flist G st s) \<Longrightarrow>
   allocated G st x"
  unfolding allocated_def by blast

lemma allocated_after_Free:
  assumes PI: "pool_inv G st" and s: "s \<in> set (owned st)"
    and x_slot: "x \<in> set (slots G st s)" and x_live: "x \<notin> set (flist G st s)"
    and fr: "MCentral_Free G st x = Inr st'"
    and y: "allocated G st y" and yx: "y \<noteq> x"
  shows "allocated G st' y"
proof -
  from Free_pool [OF PI s x_slot x_live] fr obtain
    scl: "sizeclass (central st') = sizeclass (central st)" and
    st: "\<And>t. start (span st' t) = start (span st t)" and
    np: "\<And>t. npages (span st' t) = npages (span st t)" and
    oth: "\<And>t. t \<in> set (owned st) \<Longrightarrow> t \<noteq> s \<Longrightarrow> flist G st' t = flist G st t" and
    rel: "ref (span st s) = 1 \<Longrightarrow>
       set (owned st') = set (owned st) - {s} \<and> inuse st' = removeAll s (inuse st) \<and>
       nfree (central st') = nfree (central st) + 1 - int (nobj G st s)" and
    kp: "ref (span st s) \<noteq> 1 \<Longrightarrow>
       set (owned st') = set (owned st) \<and> inuse st' = inuse st \<and>
       nfree (central st') = nfree (central st) + 1 \<and>
       flist G st' s = x # flist G st s \<and> ref (span st' s) = ref (span st s) - 1"
    by auto
  have sl: "\<And>t. slots G st' t = slots G st t" by (rule slots_cong [OF st np scl])
  from y obtain t where t: "t \<in> set (owned st)" "y \<in> set (slots G st t)"
    "y \<notin> set (flist G st t)" by (rule allocatedE)
  show ?thesis
  proof (cases "t = s")
    case False
    have "t \<in> set (owned st')"
      using rel kp t(1) False by (cases "ref (span st s) = 1") simp_all
    then show ?thesis
      using t(2,3) sl oth [OF t(1) False] by (intro allocatedI [of t]) simp_all
  next
    case True
    from live_ref [OF PI s, of "[x, y]"] x_slot x_live t(2,3) yx True
    have "2 \<le> ref (span st s)" by simp
    then have "ref (span st s) \<noteq> 1" by simp
    from kp [OF this] t yx True sl show ?thesis
      by (intro allocatedI [of s]) simp_all
  qed
qed

lemma free_each_pool:
  assumes "pool_inv G st" "counter_ok G st" "distinct xs" "\<And>x. x \<in> set xs \<Longrightarrow> allocated G st x"
  shows "\<exists>st'. free_each G st xs = Inr st' \<and> pool_inv G st' \<and> counter_ok G st' \<and>
     (\<forall>t. (t \<in> set (owned st')) =
           (t \<in> set (owned st) \<and>
            (length (filter (inspan G (span st t)) xs) = 0 \<or>
             length (filter (inspan G (span st t)) xs) < ref (span st t)))) \<and>
     (\<forall>t \<in> set (owned st').
        ref (span st' t) = ref (span st t) - length (filter (inspan G (span st t)) xs)) \<and>
     (\<forall>t. start (span st' t) = start (span st t) \<and> npages (span st' t) = npages (span st t)) \<and>
     sizeclass (central st') = sizeclass (central st) \<and> freespans st' = freespans st"
  using assms
proof (induction xs arbitrary: st)
  case Nil
  then show ?case by simp
next
  case (Cons x xs)
  note PI = Cons.prems(1) and CO = Cons.prems(2)
  from Cons.prems(3) have x_new: "x \<notin> set xs" and d: "distinct xs" by simp_all
  from Cons.prems(4) [of x] obtain s where s: "s \<in> set (owned st)"
    and x_slot: "x \<in> set (slots G st s)" and x_live: "x \<notin> set (flist G st s)"
    by (auto elim: allocatedE)
  show ?case
  proof (rule Free_pool [OF PI s x_slot x_live], goal_cases)
  case (1 st1)
  note fr = 1(1) and PI1 = 1(2) and rpos = 1(3) and x_in = 1(4) and fs = 1(5) and scl = 1(6)
    and st = 1(7) and np = 1(8) and sp = 1(9) and rel = 1(11) and kp = 1(12)
  have CO1: "counter_ok G st1" by (rule counter_ok_Free [OF PI CO s x_slot x_live fr])
  have al1: "\<And>y. y \<in> set xs \<Longrightarrow> allocated G st1 y"
  proof -
    fix y
    assume y: "y \<in> set xs"
    with x_new have "y \<noteq> x" by blast
    with allocated_after_Free [OF PI s x_slot x_live fr Cons.prems(4) [of y]] y
    show "allocated G st1 y" by simp
  qed
  from Cons.IH [OF PI1 CO1 d al1] obtain st' where H:
    "free_each G st1 xs = Inr st' \<and> pool_inv G st' \<and> counter_ok G st' \<and>
     (\<forall>t. (t \<in> set (owned st')) =
           (t \<in> set (owned st1) \<and>
            (length (filter (inspan G (span st1 t)) xs) = 0 \<or>
             length (filter (inspan G (span st1 t)) xs) < ref (span st1 t)))) \<and>
     (\<forall>t \<in> set (owned st').
        ref (span st' t) = ref (span st1 t) - length (filter (inspan G (span st1 t)) xs)) \<and>
     (\<forall>t. start (span st' t) = start (span st1 t) \<and> npages (span st' t) = npages (span st1 t)) \<and>
     sizeclass (central st') = sizeclass (central st1) \<and> freespans st' = freespans st1" ..
  note fe = H [THEN conjunct1]
  note H1 = H [THEN conjunct2]
  note PI' = H1 [THEN conjunct1]
  note H2 = H1 [THEN conjunct2]
  note CO' = H2 [THEN conjunct1]
  note H3 = H2 [THEN conjunct2]
  note own' = H3 [THEN conjunct1, rule_format]
  note H4 = H3 [THEN conjunct2]
  note ref' = H4 [THEN conjunct1, rule_format]
  note H5 = H4 [THEN conjunct2]
  note st' = H5 [THEN conjunct1, rule_format, THEN conjunct1]
  note np' = H5 [THEN conjunct1, rule_format, THEN conjunct2]
  note H6 = H5 [THEN conjunct2]
  note scl' = H6 [THEN conjunct1]
  note fs' = H6 [THEN conjunct2]
  have insp: "\<And>t. inspan G (span st1 t) = inspan G (span st t)"
    by (rule inspan_cong [OF st np])
  let ?c = "\<lambda>t. length (filter (inspan G (span st t)) xs)"
  have cnt_s: "length (filter (inspan G (span st s)) (x # xs)) = Suc (?c s)"
    using x_in by simp
  have cnt_t: "\<And>t. t \<in> set (owned st) \<Longrightarrow> t \<noteq> s \<Longrightarrow>
                 length (filter (inspan G (span st t)) (x # xs)) = ?c t"
  proof -
    fix t
    assume "t \<in> set (owned st)" "t \<noteq> s"
    with owned_disjoint [OF PI s _ _ x_in, of t] have "\<not> inspan G (span st t) x" by blast
    then show "length (filter (inspan G (span st t)) (x # xs)) = ?c t" by simp
  qed
  have own1: "\<And>t. t \<noteq> s \<Longrightarrow> (t \<in> set (owned st1)) = (t \<in> set (owned st))"
    using rel kp by (cases "ref (span st s) = 1") auto
  have own_eq: "\<And>t. (t \<in> set (owned st')) =
           (t \<in> set (owned st) \<and>
            (length (filter (inspan G (span st t)) (x # xs)) = 0 \<or>
             length (filter (inspan G (span st t)) (x # xs)) < ref (span st t)))"
  proof -
    fix t
    show "(t \<in> set (owned st')) =
           (t \<in> set (owned st) \<and>
            (length (filter (inspan G (span st t)) (x # xs)) = 0 \<or>
             length (filter (inspan G (span st t)) (x # xs)) < ref (span st t)))"
    proof (cases "t = s")
      case False
      show ?thesis
      proof (cases "t \<in> set (owned st)")
        case True
        with own' [of t] own1 [OF False] cnt_t [OF True False] sp [OF False] insp [of t]
        show ?thesis by simp
      next
        case no: False
        with own' [of t] own1 [OF False] show ?thesis by simp
      qed
    next
      case True
      show ?thesis
      proof (cases "ref (span st s) = 1")
        case one: True
        from rel [OF one] have "s \<notin> set (owned st1)" by simp
        with own' [of s] True one cnt_s show ?thesis by simp
      next
        case more: False
        from kp [OF more] s have "s \<in> set (owned st1)"
          and r1: "ref (span st1 s) = ref (span st s) - 1" by simp_all
        with own' [of s] insp [of s] have
          "(s \<in> set (owned st')) = (?c s = 0 \<or> ?c s < ref (span st s) - 1)" by simp
        moreover have "(?c s = 0 \<or> ?c s < ref (span st s) - 1) = (Suc (?c s) < ref (span st s))"
          using more rpos by arith
        ultimately show ?thesis using True s cnt_s by simp
      qed
    qed
  qed
  have ref_eq: "\<And>t. t \<in> set (owned st') \<Longrightarrow>
        ref (span st' t) = ref (span st t) - length (filter (inspan G (span st t)) (x # xs))"
  proof -
    fix t
    assume t': "t \<in> set (owned st')"
    with own' [of t] have t1: "t \<in> set (owned st1)" by simp
    show "ref (span st' t) = ref (span st t) - length (filter (inspan G (span st t)) (x # xs))"
    proof (cases "t = s")
      case False
      with t1 own1 [OF False] have t: "t \<in> set (owned st)" by simp
      from ref' [OF t'] insp [of t] sp [OF False] cnt_t [OF t False] show ?thesis by simp
    next
      case True
      with t1 rel have more: "ref (span st s) \<noteq> 1" by auto
      from kp [OF more] have "ref (span st1 s) = ref (span st s) - 1" by simp
      with ref' [OF t'] insp [of s] True cnt_s show ?thesis by simp
    qed
  qed
  show ?case
  proof (intro exI conjI allI ballI)
    show "free_each G st (x # xs) = Inr st'" using fr fe by simp
    show "pool_inv G st'" by (rule PI')
    show "counter_ok G st'" by (rule CO')
    show "\<And>t. (t \<in> set (owned st')) =
           (t \<in> set (owned st) \<and>
            (length (filter (inspan G (span st t)) (x # xs)) = 0 \<or>
             length (filter (inspan G (span st t)) (x # xs)) < ref (span st t)))"
      by (rule own_eq)
    show "\<And>t. t \<in> set (owned st') \<Longrightarrow>
        ref (span st' t) = ref (span st t) - length (filter (inspan G (span st t)) (x # xs))"
      by (rule ref_eq)
    show "\<And>t. start (span st' t) = start (span st t)" using st' st by simp
    show "\<And>t. npages (span st' t) = npages (span st t)" using np' np by simp
    show "sizeclass (central st') = sizeclass (central st)" using scl' scl by simp
    show "freespans st' = freespans st" using fs' fs by simp
  qed
qed
qed
subsection \<open>The counter along a run\<close>

lemma allocated_not_free:
  assumes PI: "pool_inv G st" and a: "allocated G st a"
  shows "a \<notin> set (allfree G st)"
proof
  assume "a \<in> set (allfree G st)"
  then obtain t where t: "t \<in> set (owned st)" "a \<in> set (flist G st t)"
    by (auto simp: set_allfree)
  from a obtain s where s: "s \<in> set (owned st)" "a \<in> set (slots G st s)"
    "a \<notin> set (flist G st s)" by (rule allocatedE)
  from pool_invD(1) [OF PI] have "0 < class_to_size G (sizeclass (central st))"
    by (simp add: geom_ok_def)
  then have "inspan G (span st s) a" using s(2) by (rule slots_inspan)
  moreover from s(3) t(2) have "s \<noteq> t" by blast
  ultimately have "a \<notin> set (flist G st t)" by (intro flist_other [OF PI s(1) t(1)])
  with t(2) show False by blast
qed

lemma initialized_pool:
  assumes "initialized G st"
  shows "pool_inv G st \<and> counter_ok G st"
proof -
  from assms have c: "central st = MCentral_Init (central st) (sizeclass (central st))"
    and z: "nfree (central st) = 0" and g: "geom_ok G (sizeclass (central st))"
    and h: "heap_ok G st"
    by (simp_all add: initialized_def)
  from arg_cong [OF c, of nonempty] have ne: "nonempty (central st) = []"
    by (simp add: MCentral_Init_def)
  from arg_cong [OF c, of empty] have em: "empty (central st) = []"
    by (simp add: MCentral_Init_def)
  from ne em have own: "owned st = []" by (simp add: owned_def)
  with z g h show ?thesis by (simp add: pool_inv_def counter_ok_def allfree_def)
qed

lemma FreeList_pool:
  assumes PI: "pool_inv G st" and CO: "counter_ok G st"
    and ch: "chain (mem st) v xs" and al: "\<And>x. x \<in> set xs \<Longrightarrow> allocated G st x"
  shows "\<exists>st'. MCentral_FreeList G st n v = Inr st' \<and> pool_inv G st' \<and> counter_ok G st' \<and>
     (\<forall>t. (t \<in> set (owned st')) =
           (t \<in> set (owned st) \<and>
            (length (filter (inspan G (span st t)) xs) = 0 \<or>
             length (filter (inspan G (span st t)) xs) < ref (span st t)))) \<and>
     (\<forall>t \<in> set (owned st').
        ref (span st' t) = ref (span st t) - length (filter (inspan G (span st t)) xs)) \<and>
     (\<forall>t. start (span st' t) = start (span st t) \<and> npages (span st' t) = npages (span st t)) \<and>
     sizeclass (central st') = sizeclass (central st) \<and> freespans st' = freespans st"
proof -
  have "FreeList_loop G st v = free_each G st xs"
    by (rule FreeList_loop_free_each [OF pool_invD(4) [OF PI] ch]) simp
  then have e: "MCentral_FreeList G st n v = free_each G st xs"
    by (simp add: MCentral_FreeList_def)
  show ?thesis
    unfolding e by (rule free_each_pool [OF PI CO chain_distinct [OF ch] al])
qed

lemma step_pool:
  assumes PI: "pool_inv G st" and CO: "counter_ok G st" and st: "step G st c = Some st'"
  shows "pool_inv G st' \<and> counter_ok G st'"
proof (cases c)
  case (AllocBatch n)
  with st obtain i first where "MCentral_AllocList G st n = Inr (i, first, st')"
    by (auto split: sum.splits)
  then show ?thesis by (rule counter_ok_AllocList [OF PI CO])
next
  case (FreeBatch n v xs)
  with st have ch: "chain (mem st) v xs" and al: "list_all (allocated G st) xs"
    and fr: "MCentral_FreeList G st n v = Inr st'"
    by (auto split: if_splits sum.splits)
  from al have "\<And>x. x \<in> set xs \<Longrightarrow> allocated G st x" by (simp add: list_all_iff)
  from FreeList_pool [OF PI CO ch this, of n] fr show ?thesis by simp
next
  case GrowPool
  with st obtain ok where "MCentral_Grow G st = Inr (ok, st')"
    by (auto split: sum.splits)
  then show ?thesis by (rule counter_ok_Grow [OF PI CO])
next
  case (Store a b)
  with st have a: "allocated G st a" and e: "st' = st\<lparr>mem := (mem st)(a := b)\<rparr>"
    by (auto split: if_splits)
  note nf = allocated_not_free [OF PI a]
  from pool_inv_store(1) [OF PI nf, of b] counter_ok_store [OF PI CO nf, of b] e
  show ?thesis by simp
qed

lemma run_pool:
  assumes "pool_inv G st" "counter_ok G st" "run G st cs = Some st'"
  shows "pool_inv G st' \<and> counter_ok G st'"
  using assms
proof (induction cs arbitrary: st)
  case Nil
  then show ?case by simp
next
  case (Cons c cs)
  from Cons.prems(3) obtain st1 where s: "step G st c = Some st1" and r: "run G st1 cs = Some st'"
    by (auto split: option.splits)
  from step_pool [OF Cons.prems(1,2) s] have "pool_inv G st1" "counter_ok G st1" by simp_all
  then show ?case using r by (rule Cons.IH)
qed

text \<open>
  Claim C2. In every state that a run of batch allocations, batch frees and grow
  operations (and of writes of the client into objects it holds) reaches from an
  initialized central, \<^verbatim>\<open>nfree\<close> is the sum of the lengths of the free lists of the
  spans in the nonempty and empty lists. A batch free is given a chain of objects the
  client holds.
\<close>

theorem C2_counter_accuracy:
  assumes "initialized G st" "run G st cs = Some st'"
  shows "nfree (central st') =
           int (sum_list (map (\<lambda>s. length (flist G st' s)) (owned st')))"
proof -
  from initialized_pool [OF assms(1)] have "pool_inv G st" "counter_ok G st" by simp_all
  from run_pool [OF this assms(2)] have "counter_ok G st'" by simp
  then show ?thesis
    by (simp add: counter_ok_def allfree_def length_concat comp_def)
qed

lemmas run_defs = MCentral_AllocList_def replenish_def MSpanList_IsEmpty_def
  MCentral_Alloc_def Let_def AllocList_loop.simps MSpanList_Remove_def MSpanList_Insert_def
  MCentral_FreeList_def FreeList_loop.simps MCentral_Free_def MHeap_Lookup_def MHeap_Free_def
  inspan_def base_def bytes_def

lemma carve_unfold:
  "0 < k \<Longrightarrow> carve k sz t p hm = carve (k - 1) sz (Link p) (p + sz) (store_tail t p hm)"
  by (cases k) simp_all

lemma Grow_W0: "MCentral_Grow G0 W0 = Inr (True, Wg)"
  by (simp add: MCentral_Grow_def Let_def MGetSizeClassInfo_def MHeap_Alloc_def W0_def G0_def Wg_def
     carve_unfold cdiv_def int32_def MSpanList_Insert_def base_def nospan_def fun_eq_iff)

lemma run_Grow_W0: "run G0 W0 [GrowPool] = Some Wg"
  by (simp add: Grow_W0)

lemma initialized_W0: "initialized G0 W0"
  by (simp add: initialized_def MCentral_Init_def geom_ok_def heap_ok_def ranges_def W0_def G0_def)

lemma AllocList_W0: "MCentral_AllocList G0 W0 3 = Inr (3, 64, W1)"
  unfolding MCentral_AllocList_def replenish_def
  apply (simp add: MSpanList_IsEmpty_def Grow_W0)
  apply (simp add: W0_def)
  apply (simp add: run_defs Wg_def W1_def fun_eq_iff)
  done

lemma alloc_W1: "allocated G0 W1 64 \<and> allocated G0 W1 80 \<and> allocated G0 W1 96"
  by (simp add: allocated_def eval_defs W1_def G0_def)

lemma run_W0:
  "\<exists>st'. run G0 W0 [AllocBatch 3, Store 80 0, FreeBatch 2 64 [64, 80]] = Some st' \<and>
         nfree (central st') = 3"
proof -
  have s1: "step G0 W0 (AllocBatch 3) = Some W1" by (simp add: AllocList_W0)
  have s2: "step G0 W1 (Store 80 0) = Some (W1\<lparr>mem := (mem W1)(80 := 0)\<rparr>)"
    by (simp add: alloc_W1)
  have a3: "list_all (allocated G0 (W1\<lparr>mem := (mem W1)(80 := 0)\<rparr>)) [64, 80]"
    by (simp add: allocated_def eval_defs W1_def G0_def)
  have c3: "chain (mem (W1\<lparr>mem := (mem W1)(80 := 0)\<rparr>)) 64 [64, 80]"
    by (simp add: W1_def)
  have "\<exists>st'. MCentral_FreeList G0 (W1\<lparr>mem := (mem W1)(80 := 0)\<rparr>) 2 64 = Inr st' \<and>
          nfree (central st') = 3"
    by (simp add: run_defs W1_def G0_def)
  then obtain st' where
    "MCentral_FreeList G0 (W1\<lparr>mem := (mem W1)(80 := 0)\<rparr>) 2 64 = Inr st'"
    "nfree (central st') = 3" by blast
  with a3 c3 have "step G0 (W1\<lparr>mem := (mem W1)(80 := 0)\<rparr>) (FreeBatch 2 64 [64, 80]) = Some st'"
    by simp
  with s1 s2 \<open>nfree (central st') = 3\<close> show ?thesis by simp
qed

theorem C2_counter_accuracy_witness:
  "initialized G0 W0 \<and>
   (\<exists>st'. run G0 W0 [AllocBatch 3, Store 80 0, FreeBatch 2 64 [64, 80]] = Some st' \<and>
          nfree (central st') = 3 \<and>
          int (sum_list (map (\<lambda>s. length (flist G0 st' s)) (owned st'))) = 3)"
proof -
  from run_W0 obtain st' where
    r: "run G0 W0 [AllocBatch 3, Store 80 0, FreeBatch 2 64 [64, 80]] = Some st'" and
    n: "nfree (central st') = 3" by blast
  from C2_counter_accuracy [OF initialized_W0 r] n
  have "int (sum_list (map (\<lambda>s. length (flist G0 st' s)) (owned st'))) = 3" by simp
  with initialized_W0 r n show ?thesis by blast
qed

subsection \<open>A batch allocation followed by the batch free of its chain\<close>

lemma alloc_post_allocated:
  assumes PI1: "pool_inv G st1" and ap: "alloc_post G st1 zs st'"
    and sub: "set zs \<subseteq> set (avail G st1)" and x: "x \<in> set zs"
  shows "allocated G st' x"
proof -
  note A = alloc_postD [OF ap]
  from x sub have "x \<in> set (allfree G st1)" by (auto simp: set_avail [OF PI1])
  then obtain s where s: "s \<in> set (owned st1)" and xs: "x \<in> set (flist G st1 s)"
    by (auto simp: set_allfree)
  from span_okD(2) [OF pool_invD(5) [OF PI1 s]] xs have "x \<in> set (slots G st1 s)" by blast
  moreover have "slots G st' s = slots G st1 s"
    by (rule slots_cong) (simp_all add: A(7,9,10))
  ultimately have sl: "x \<in> set (slots G st' s)" by simp
  from s A(8) have s': "s \<in> set (owned st')" by simp
  from A(3) x have "x \<notin> set (allfree G st')" by simp
  with s' have "x \<notin> set (flist G st' s)" by (auto simp: set_allfree)
  with s' sl show ?thesis by (rule allocatedI)
qed

lemma roundtrip_from:
  assumes PI1: "pool_inv G st1" and CO1: "counter_ok G st1"
    and ap: "alloc_post G st1 zs st'" and ch: "chain (mem st') first zs"
    and sub: "set zs \<subseteq> set (avail G st1)"
    and nf: "nfree (central st') = nfree (central st1) - int (length zs)"
  shows "\<exists>st2. MCentral_FreeList G st' k first = Inr st2 \<and> pool_inv G st2 \<and> counter_ok G st2 \<and>
     (\<forall>t. (t \<in> set (owned st2)) =
           (t \<in> set (owned st1) \<and>
            (length (filter (inspan G (span st1 t)) zs) = 0 \<or> 0 < ref (span st1 t)))) \<and>
     (\<forall>t \<in> set (owned st2). ref (span st2 t) = ref (span st1 t)) \<and>
     sizeclass (central st2) = sizeclass (central st1)"
proof -
  note A = alloc_postD [OF ap]
  have CO': "counter_ok G st'"
    using CO1 A(4) nf by (simp add: counter_ok_def)
  have al: "\<And>x. x \<in> set zs \<Longrightarrow> allocated G st' x"
    by (rule alloc_post_allocated [OF PI1 ap sub])
  from FreeList_pool [OF A(1) CO' ch al, of k] obtain st2 where H:
    "MCentral_FreeList G st' k first = Inr st2 \<and> pool_inv G st2 \<and> counter_ok G st2 \<and>
     (\<forall>t. (t \<in> set (owned st2)) =
           (t \<in> set (owned st') \<and>
            (length (filter (inspan G (span st' t)) zs) = 0 \<or>
             length (filter (inspan G (span st' t)) zs) < ref (span st' t)))) \<and>
     (\<forall>t \<in> set (owned st2).
        ref (span st2 t) = ref (span st' t) - length (filter (inspan G (span st' t)) zs)) \<and>
     (\<forall>t. start (span st2 t) = start (span st' t) \<and> npages (span st2 t) = npages (span st' t)) \<and>
     sizeclass (central st2) = sizeclass (central st') \<and> freespans st2 = freespans st'" ..
  note fr = H [THEN conjunct1]
  note H1 = H [THEN conjunct2]
  note PI2 = H1 [THEN conjunct1]
  note H2 = H1 [THEN conjunct2]
  note CO2 = H2 [THEN conjunct1]
  note H3 = H2 [THEN conjunct2]
  note own2 = H3 [THEN conjunct1, rule_format]
  note H4 = H3 [THEN conjunct2]
  note ref2 = H4 [THEN conjunct1, rule_format]
  note H5 = H4 [THEN conjunct2]
  note H6 = H5 [THEN conjunct2]
  note scl2 = H6 [THEN conjunct1]
  have insp: "\<And>t. inspan G (span st' t) = inspan G (span st1 t)"
    by (rule inspan_cong) (simp_all add: A(9,10))
  have own_eq: "\<And>t. (t \<in> set (owned st2)) =
           (t \<in> set (owned st1) \<and>
            (length (filter (inspan G (span st1 t)) zs) = 0 \<or> 0 < ref (span st1 t)))"
  proof -
    fix t
    show "(t \<in> set (owned st2)) =
           (t \<in> set (owned st1) \<and>
            (length (filter (inspan G (span st1 t)) zs) = 0 \<or> 0 < ref (span st1 t)))"
    proof (cases "t \<in> set (owned st1)")
      case True
      from A(11) [OF True] have
        "ref (span st' t) = ref (span st1 t) + length (filter (inspan G (span st1 t)) zs)" .
      with own2 [of t] True A(8) insp [of t] show ?thesis by simp
    next
      case False
      with own2 [of t] A(8) show ?thesis by simp
    qed
  qed
  have ref_eq: "\<And>t. t \<in> set (owned st2) \<Longrightarrow> ref (span st2 t) = ref (span st1 t)"
  proof -
    fix t
    assume t2: "t \<in> set (owned st2)"
    with own_eq [of t] have t1: "t \<in> set (owned st1)" by simp
    from A(11) [OF t1] ref2 [OF t2] insp [of t] show "ref (span st2 t) = ref (span st1 t)"
      by simp
  qed
  show ?thesis
  proof (intro exI conjI allI ballI)
    show "MCentral_FreeList G st' k first = Inr st2" by (rule fr)
    show "pool_inv G st2" by (rule PI2)
    show "counter_ok G st2" by (rule CO2)
    show "\<And>t. (t \<in> set (owned st2)) =
           (t \<in> set (owned st1) \<and>
            (length (filter (inspan G (span st1 t)) zs) = 0 \<or> 0 < ref (span st1 t)))"
      by (rule own_eq)
    show "\<And>t. t \<in> set (owned st2) \<Longrightarrow> ref (span st2 t) = ref (span st1 t)" by (rule ref_eq)
    show "sizeclass (central st2) = sizeclass (central st1)" using scl2 A(7) by simp
  qed
qed

lemma same_counts:
  assumes PI: "pool_inv G st" and CO: "counter_ok G st"
    and PI2: "pool_inv G st2" and CO2: "counter_ok G st2"
    and own: "set (owned st2) = set (owned st)"
    and rf: "\<And>t. t \<in> set (owned st) \<Longrightarrow> ref (span st2 t) = ref (span st t)"
    and sc: "sizeclass (central st2) = sizeclass (central st)"
  shows "(\<forall>t \<in> set (owned st). length (flist G st2 t) = length (flist G st t)) \<and>
         nfree (central st2) = nfree (central st)"
proof -
  have len: "\<And>t. t \<in> set (owned st) \<Longrightarrow> length (flist G st2 t) = length (flist G st t)"
  proof -
    fix t
    assume t: "t \<in> set (owned st)"
    with own have t2: "t \<in> set (owned st2)" by simp
    from nobj_owned [OF PI t] nobj_owned [OF PI2 t2] sc
    have n: "nobj G st2 t = nobj G st t" by simp
    from span_okD(3) [OF pool_invD(5) [OF PI t]] span_okD(3) [OF pool_invD(5) [OF PI2 t2]]
      n rf [OF t]
    show "length (flist G st2 t) = length (flist G st t)" by simp
  qed
  have "length (allfree G st2) = (\<Sum>t \<in> set (owned st2). length (flist G st2 t))"
    by (rule length_allfree [OF pool_invD(2) [OF PI2]])
  also have "\<dots> = (\<Sum>t \<in> set (owned st). length (flist G st t))"
    unfolding own by (rule sum.cong [OF refl]) (rule len)
  also have "\<dots> = length (allfree G st)"
    by (rule length_allfree [OF pool_invD(2) [OF PI], symmetric])
  finally have "nfree (central st2) = nfree (central st)"
    using CO CO2 by (simp add: counter_ok_def)
  with len show ?thesis by blast
qed

text \<open>
  From a well-formed central whose counter is accurate and in which every span has an
  allocated object, the round trip ends in a state with the same spans, the same
  counts in each of them and the same \<^verbatim>\<open>nfree\<close>.
\<close>

lemma roundtrip_restores:
  assumes PI: "pool_inv G st" and CO: "counter_ok G st"
    and live: "\<And>s. s \<in> set (owned st) \<Longrightarrow> 0 < ref (span st s)"
  shows "\<exists>st2. roundtrip G st n = Inr st2 \<and> pool_inv G st2 \<and> counter_ok G st2 \<and>
      set (owned st2) = set (owned st) \<and>
      (\<forall>s \<in> set (owned st). ref (span st2 s) = ref (span st s) \<and>
                               length (flist G st2 s) = length (flist G st s)) \<and>
      nfree (central st2) = nfree (central st)"
  using PI
proof (cases rule: replenish_cases)
  case oom
  then have "MCentral_AllocList G st n = Inr (0, 0, st)"
    by (simp add: MCentral_AllocList_def)
  then have "roundtrip G st n = Inr st"
    by (simp add: roundtrip_def MCentral_FreeList_def FreeList_loop.simps)
  with PI CO show ?thesis by simp
next
  case ready
  let ?zs = "take (nat (max 1 (min n (int (length (avail G st)))))) (avail G st)"
  from AllocList_returns [OF PI ready(2), of n] obtain first st' where
    res: "MCentral_AllocList G st n =
       Inr (max 1 (min n (int (length (avail G st)))), first, st')" and
    ch: "chain (mem st') first ?zs" and ap: "alloc_post G st ?zs st'" and
    nf: "nfree (central st') = nfree (central st) - max 1 (min n (int (length (avail G st))))"
    by blast
  from replenish_pool(2) [OF PI ready(2)] have "avail G st \<noteq> []" by (simp add: avail_Nil [OF PI])
  then have "1 \<le> length (avail G st)" by (cases "avail G st") simp_all
  then have "int (length ?zs) = max 1 (min n (int (length (avail G st))))"
    unfolding length_take by arith
  with nf have nf': "nfree (central st') = nfree (central st) - int (length ?zs)" by simp
  have sub: "set ?zs \<subseteq> set (avail G st)" by (rule set_take_subset)
  from roundtrip_from [OF PI CO ap ch sub nf',
      of "max 1 (min n (int (length (avail G st))))"]
  obtain st2 where H:
    "MCentral_FreeList G st' (max 1 (min n (int (length (avail G st))))) first = Inr st2 \<and>
     pool_inv G st2 \<and> counter_ok G st2 \<and>
     (\<forall>t. (t \<in> set (owned st2)) =
           (t \<in> set (owned st) \<and>
            (length (filter (inspan G (span st t)) ?zs) = 0 \<or> 0 < ref (span st t)))) \<and>
     (\<forall>t \<in> set (owned st2). ref (span st2 t) = ref (span st t)) \<and>
     sizeclass (central st2) = sizeclass (central st)" ..
  note fr = H [THEN conjunct1]
  note H1 = H [THEN conjunct2]
  note PI2 = H1 [THEN conjunct1]
  note H2 = H1 [THEN conjunct2]
  note CO2 = H2 [THEN conjunct1]
  note H3 = H2 [THEN conjunct2]
  note own2 = H3 [THEN conjunct1, rule_format]
  note H4 = H3 [THEN conjunct2]
  note ref2 = H4 [THEN conjunct1, rule_format]
  note scl2 = H4 [THEN conjunct2]
  have rt: "roundtrip G st n = Inr st2" using res fr by (simp add: roundtrip_def)
  have own: "set (owned st2) = set (owned st)"
  proof (rule set_eqI)
    fix t
    show "(t \<in> set (owned st2)) = (t \<in> set (owned st))"
      using own2 [of t] live [of t] by (cases "t \<in> set (owned st)") simp_all
  qed
  have rf: "\<And>t. t \<in> set (owned st) \<Longrightarrow> ref (span st2 t) = ref (span st t)"
    using ref2 own by simp
  from same_counts [OF PI CO PI2 CO2 own rf scl2] rt PI2 CO2 own rf show ?thesis by simp
next
  case (grown g p rest st1)
  note ne = grown(1) and fs = grown(2) and rp = grown(3) and gr = grown(4)
  from PI gr show ?thesis
  proof (cases rule: Grow_pool)
  case exhausted
  with fs show ?thesis by simp
  next
  case (grown g' p' rest' st1')
  with fs have eq: "g' = g" "p' = p" "rest' = rest" "st1' = st1" by simp_all
  note Gr = grown [unfolded eq]
  note nonempty1 = Gr(4) and empty1 = Gr(5) and scl1 = Gr(9) and g_new = Gr(10)
    and fl_g = Gr(11) and ref_g = Gr(13) and oth = Gr(14)
  from counter_ok_Grow [OF PI CO gr] have PI1: "pool_inv G st1" and CO1: "counter_ok G st1"
    by simp_all
  have own1: "owned st1 = g # owned st" using nonempty1 empty1 by (simp add: owned_def)
  have g_own: "g \<notin> set (owned st)" using g_new pool_invD(3) [OF PI] by auto
  have av: "avail G st1 = slots G st1 g"
    unfolding avail_def nonempty1 ne using fl_g by simp
  let ?zs = "take (nat (max 1 (min n (int (length (avail G st1)))))) (avail G st1)"
  from AllocList_returns [OF PI rp, of n] obtain first st' where
    res: "MCentral_AllocList G st n =
       Inr (max 1 (min n (int (length (avail G st1)))), first, st')" and
    ch: "chain (mem st') first ?zs" and ap: "alloc_post G st1 ?zs st'" and
    nf: "nfree (central st') = nfree (central st1) - max 1 (min n (int (length (avail G st1))))"
    by blast
  from replenish_pool(2) [OF PI rp] have ane: "avail G st1 \<noteq> []" by (simp add: avail_Nil [OF PI1])
  then have L: "1 \<le> length (avail G st1)" by (cases "avail G st1") simp_all
  then have "int (length ?zs) = max 1 (min n (int (length (avail G st1))))"
    unfolding length_take by arith
  with nf have nf': "nfree (central st') = nfree (central st1) - int (length ?zs)" by simp
  have sub: "set ?zs \<subseteq> set (avail G st1)" by (rule set_take_subset)
  from L have "1 \<le> length ?zs" unfolding length_take by arith
  then obtain z zs' where zs: "?zs = z # zs'" by (cases ?zs) simp_all
  then have "z \<in> set ?zs" by simp
  with sub av have "z \<in> set (slots G st1 g)" by auto
  moreover from pool_invD(1) [OF PI1] have "0 < class_to_size G (sizeclass (central st1))"
    by (simp add: geom_ok_def)
  ultimately have "inspan G (span st1 g) z" by (intro slots_inspan)
  then have cnt_g: "length (filter (inspan G (span st1 g)) ?zs) \<noteq> 0"
    unfolding zs by simp
  from roundtrip_from [OF PI1 CO1 ap ch sub nf',
      of "max 1 (min n (int (length (avail G st1))))"]
  obtain st2 where H:
    "MCentral_FreeList G st' (max 1 (min n (int (length (avail G st1))))) first = Inr st2 \<and>
     pool_inv G st2 \<and> counter_ok G st2 \<and>
     (\<forall>t. (t \<in> set (owned st2)) =
           (t \<in> set (owned st1) \<and>
            (length (filter (inspan G (span st1 t)) ?zs) = 0 \<or> 0 < ref (span st1 t)))) \<and>
     (\<forall>t \<in> set (owned st2). ref (span st2 t) = ref (span st1 t)) \<and>
     sizeclass (central st2) = sizeclass (central st1)" ..
  note fr = H [THEN conjunct1]
  note H1 = H [THEN conjunct2]
  note PI2 = H1 [THEN conjunct1]
  note H2 = H1 [THEN conjunct2]
  note CO2 = H2 [THEN conjunct1]
  note H3 = H2 [THEN conjunct2]
  note own2 = H3 [THEN conjunct1, rule_format]
  note H4 = H3 [THEN conjunct2]
  note ref2 = H4 [THEN conjunct1, rule_format]
  note scl2 = H4 [THEN conjunct2]
  have rt: "roundtrip G st n = Inr st2" using res fr by (simp add: roundtrip_def)
  have own: "set (owned st2) = set (owned st)"
  proof (rule set_eqI)
    fix t
    show "(t \<in> set (owned st2)) = (t \<in> set (owned st))"
    proof (cases "t = g")
      case True
      with own2 [of g] cnt_g ref_g g_own show ?thesis by simp
    next
      case False
      with own2 [of t] live [of t] oth [OF False] own1 show ?thesis by auto
    qed
  qed
  have rf: "\<And>t. t \<in> set (owned st) \<Longrightarrow> ref (span st2 t) = ref (span st t)"
  proof -
    fix t
    assume t: "t \<in> set (owned st)"
    with g_own have "t \<noteq> g" by blast
    from oth [OF this] ref2 [of t] t own show "ref (span st2 t) = ref (span st t)" by simp
  qed
  have scl: "sizeclass (central st2) = sizeclass (central st)" using scl2 scl1 by simp
  from same_counts [OF PI CO PI2 CO2 own rf scl] rt PI2 CO2 own rf show ?thesis by simp
qed
qed

subsection \<open>The states a client sees\<close>

lemma live_spansD: "live_spans st \<Longrightarrow> s \<in> set (owned st) \<Longrightarrow> 0 < ref (span st s)"
  unfolding live_spans_def by blast

lemma live_spansI: "(\<And>s. s \<in> set (owned st) \<Longrightarrow> 0 < ref (span st s)) \<Longrightarrow> live_spans st"
  unfolding live_spans_def by blast

lemma AllocList_live:
  assumes PI: "pool_inv G st" and LS: "live_spans st"
    and res: "MCentral_AllocList G st n = Inr (i, first, st')"
  shows "live_spans st'"
  using PI res
proof (cases rule: AllocList_cases)
  case oom
  with LS show ?thesis by simp
next
  case (some st1)
  note rp = some(1) and PI1 = some(2) and ne1 = some(3) and i = some(4) and ap = some(7)
  note A = alloc_postD [OF ap]
  let ?zs = "take (nat i) (avail G st1)"
  from ne1 obtain h hs where nh: "nonempty (central st1) = h # hs"
    by (cases "nonempty (central st1)") simp_all
  then have h_ne: "h \<in> set (nonempty (central st1))" by simp
  then have h_own: "h \<in> set (owned st1)" by (rule owned_nonempty)
  from flist_nonempty [OF PI1 h_ne] obtain z zs' where fz: "flist G st1 h = z # zs'"
    by (cases "flist G st1 h") simp_all
  have "avail G st1 = z # (zs' @ concat (map (flist G st1) hs))"
    unfolding avail_def nh using fz by simp
  moreover from i have "1 \<le> nat i" by simp
  ultimately have "z \<in> set ?zs" by (cases "nat i") simp_all
  moreover from fz have "z \<in> set (flist G st1 h)" by simp
  then have "inspan G (span st1 h) z" by (rule flist_inspan [OF PI1 h_own])
  ultimately have "z \<in> set (filter (inspan G (span st1 h)) ?zs)" by simp
  then have cnt_h: "0 < length (filter (inspan G (span st1 h)) ?zs)"
    by (cases "filter (inspan G (span st1 h)) ?zs") simp_all
  have pos1: "\<And>s. s \<in> set (owned st1) \<Longrightarrow> s \<noteq> h \<Longrightarrow> 0 < ref (span st1 s)"
  proof (cases "nonempty (central st) = []")
    case False
    from replenish_pool(4) [OF PI rp False] have "st1 = st" .
    then show "\<And>s. s \<in> set (owned st1) \<Longrightarrow> s \<noteq> h \<Longrightarrow> 0 < ref (span st1 s)"
      using LS by (simp add: live_spansD)
  next
    case True
    with rp have gr: "MCentral_Grow G st = Inr (True, st1)"
      by (simp add: replenish_def MSpanList_IsEmpty_def)
    fix s
    assume s1: "s \<in> set (owned st1)" and sh: "s \<noteq> h"
    from PI gr show "0 < ref (span st1 s)"
    proof (cases rule: Grow_pool)
      case exhausted
      then show ?thesis by simp
    next
      case (grown g p rest st1')
      then have e: "st1' = st1" by simp
      note Gr = grown [unfolded e]
      from Gr(4) True nh have hg: "h = g" by simp
      from Gr(4,5) have "owned st1 = g # owned st" by (simp add: owned_def)
      with s1 sh hg have s: "s \<in> set (owned st)" by simp
      from Gr(14) [of s] sh hg have "span st1 s = span st s" by simp
      with live_spansD [OF LS s] show ?thesis by simp
    qed
  qed
  show ?thesis
  proof (rule live_spansI)
    fix s
    assume "s \<in> set (owned st')"
    with A(8) have s1: "s \<in> set (owned st1)" by simp
    from A(11) [OF s1] have r: "ref (span st' s) =
        ref (span st1 s) + length (filter (inspan G (span st1 s)) ?zs)" .
    show "0 < ref (span st' s)"
    proof (cases "s = h")
      case True
      with r cnt_h show ?thesis by simp
    next
      case False
      from pos1 [OF s1 False] r show ?thesis by simp
    qed
  qed
qed

lemma FreeList_live:
  assumes PI: "pool_inv G st" and CO: "counter_ok G st" and LS: "live_spans st"
    and ch: "chain (mem st) v xs" and al: "\<And>x. x \<in> set xs \<Longrightarrow> allocated G st x"
    and fr: "MCentral_FreeList G st n v = Inr st'"
  shows "live_spans st'"
proof -
  from FreeList_pool [OF PI CO ch al, of n] fr have
    own: "\<And>t. (t \<in> set (owned st')) =
           (t \<in> set (owned st) \<and>
            (length (filter (inspan G (span st t)) xs) = 0 \<or>
             length (filter (inspan G (span st t)) xs) < ref (span st t)))" and
    rf: "\<And>t. t \<in> set (owned st') \<Longrightarrow>
        ref (span st' t) = ref (span st t) - length (filter (inspan G (span st t)) xs)"
    by simp_all
  show ?thesis
  proof (rule live_spansI)
    fix t
    assume t': "t \<in> set (owned st')"
    with own [of t] have t: "t \<in> set (owned st)" and
      c: "length (filter (inspan G (span st t)) xs) = 0 \<or>
          length (filter (inspan G (span st t)) xs) < ref (span st t)" by simp_all
    from live_spansD [OF LS t] c rf [OF t'] show "0 < ref (span st' t)" by arith
  qed
qed

lemma step_live:
  assumes PI: "pool_inv G st" and CO: "counter_ok G st" and LS: "live_spans st"
    and c: "c \<noteq> GrowPool" and st: "step G st c = Some st'"
  shows "live_spans st'"
proof (cases c)
  case (AllocBatch n)
  with st obtain i first where "MCentral_AllocList G st n = Inr (i, first, st')"
    by (auto split: sum.splits)
  then show ?thesis by (rule AllocList_live [OF PI LS])
next
  case (FreeBatch n v xs)
  with st have ch: "chain (mem st) v xs" and al: "list_all (allocated G st) xs"
    and fr: "MCentral_FreeList G st n v = Inr st'"
    by (auto split: if_splits sum.splits)
  from al have "\<And>x. x \<in> set xs \<Longrightarrow> allocated G st x" by (simp add: list_all_iff)
  from FreeList_live [OF PI CO LS ch this fr] show ?thesis .
next
  case GrowPool
  with c show ?thesis by simp
next
  case (Store a b)
  with st have "st' = st\<lparr>mem := (mem st)(a := b)\<rparr>" by (auto split: if_splits)
  with LS show ?thesis by (simp add: live_spans_def owned_def)
qed

lemma run_live:
  assumes "pool_inv G st" "counter_ok G st" "live_spans st" "GrowPool \<notin> set cs"
    "run G st cs = Some st'"
  shows "pool_inv G st' \<and> counter_ok G st' \<and> live_spans st'"
  using assms
proof (induction cs arbitrary: st)
  case Nil
  then show ?case by simp
next
  case (Cons c cs)
  from Cons.prems(5) obtain st1 where s: "step G st c = Some st1" and r: "run G st1 cs = Some st'"
    by (auto split: option.splits)
  from Cons.prems(4) have c: "c \<noteq> GrowPool" and cs: "GrowPool \<notin> set cs" by auto
  from step_pool [OF Cons.prems(1,2) s] have "pool_inv G st1" "counter_ok G st1" by simp_all
  moreover have "live_spans st1" by (rule step_live [OF Cons.prems(1,2,3) c s])
  ultimately show ?case using cs r by (rule Cons.IH)
qed

lemma initialized_live: "initialized G st \<Longrightarrow> live_spans st"
proof -
  assume "initialized G st"
  then have c: "central st = MCentral_Init (central st) (sizeclass (central st))"
    by (simp add: initialized_def)
  from arg_cong [OF c, of nonempty] arg_cong [OF c, of empty]
  show "live_spans st" by (simp add: MCentral_Init_def live_spans_def owned_def)
qed

text \<open>
  Claim C8. In every state a client sees, that is every state that a run of batch
  allocations and batch frees (and of writes of the client into objects it holds)
  reaches from an initialized central, a batch allocation followed by the batch free
  of the chain it returned, unchanged, ends in a state with the same spans in the
  lists of the central, the same count of allocated objects and the same length of
  the free list in each of them, and the same \<^verbatim>\<open>nfree\<close>; the order of the free lists
  may differ. The state it ends in is again well formed with an accurate counter.
\<close>

theorem C8_roundtrip_restores:
  assumes "initialized G st0" "GrowPool \<notin> set cs" "run G st0 cs = Some st"
  shows "\<exists>st2. roundtrip G st n = Inr st2 \<and> pool_inv G st2 \<and> counter_ok G st2 \<and>
      set (owned st2) = set (owned st) \<and>
      (\<forall>s \<in> set (owned st). ref (span st2 s) = ref (span st s) \<and>
                               length (flist G st2 s) = length (flist G st s)) \<and>
      nfree (central st2) = nfree (central st)"
proof -
  from initialized_pool [OF assms(1)] have "pool_inv G st0" "counter_ok G st0" by simp_all
  from run_live [OF this initialized_live [OF assms(1)] assms(2,3)]
  have PI: "pool_inv G st" and CO: "counter_ok G st" and LS: "live_spans st" by simp_all
  show ?thesis by (rule roundtrip_restores [OF PI CO live_spansD [OF LS]])
qed

lemma counter_ok_W3: "counter_ok G0 W3"
  by (simp add: counter_ok_def allfree_def eval_defs W3_def G0_def)

lemma pool_inv_Wg: "pool_inv G0 Wg"
  unfolding pool_inv_def by (simp add: eval_defs geom_ok_def Wg_def G0_def)

lemma counter_ok_Wg: "counter_ok G0 Wg"
  by (simp add: counter_ok_def allfree_def eval_defs Wg_def G0_def)

lemma list_inv_Wg: "list_inv Wg"
  unfolding list_inv_def by (simp add: owned_def Wg_def nospan_def)

lemma roundtrip_Wg: "pool_after (roundtrip G0 Wg 1) = Some ([], 0)"
  by (simp add: roundtrip_def run_defs Wg_def G0_def pool_after_def owned_def)

lemma AllocList_W0_all: "MCentral_AllocList G0 W0 4 = Inr (4, 64, W2)"
  unfolding MCentral_AllocList_def replenish_def
  apply (simp add: MSpanList_IsEmpty_def Grow_W0)
  apply (simp add: W0_def)
  apply (simp add: run_defs Wg_def W2_def fun_eq_iff)
  done

lemma run_W0_all: "run G0 W0 [AllocBatch 4] = Some W2"
  by (simp add: AllocList_W0_all)

theorem C8_roundtrip_restores_witness:
  "initialized G0 W0 \<and> GrowPool \<notin> set [AllocBatch 4] \<and>
   run G0 W0 [AllocBatch 4] = Some W2 \<and> owned W2 = [1] \<and>
   (\<exists>st2. roundtrip G0 W2 2 = Inr st2 \<and> set (owned st2) = {1} \<and>
      ref (span st2 1) = 4 \<and> length (flist G0 st2 1) = 0 \<and> nfree (central st2) = 0)"
proof -
  have w: "owned W2 = [1]" "ref (span W2 1) = 4" "length (flist G0 W2 1) = 0"
    "nfree (central W2) = 0"
    by (simp_all add: eval_defs W2_def G0_def)
  have g: "GrowPool \<notin> set [AllocBatch 4]" by simp
  from C8_roundtrip_restores [OF initialized_W0 g run_W0_all, of 2] obtain st2 where
    "roundtrip G0 W2 2 = Inr st2 \<and> pool_inv G0 st2 \<and> counter_ok G0 st2 \<and>
      set (owned st2) = set (owned W2) \<and>
      (\<forall>s \<in> set (owned W2). ref (span st2 s) = ref (span W2 s) \<and>
                               length (flist G0 st2 s) = length (flist G0 W2 s)) \<and>
      nfree (central st2) = nfree (central W2)" ..
  then have "roundtrip G0 W2 2 = Inr st2 \<and> set (owned st2) = {1} \<and>
      ref (span st2 1) = 4 \<and> length (flist G0 st2 1) = 0 \<and> nfree (central st2) = 0"
    using w by simp
  then have "\<exists>st2. roundtrip G0 W2 2 = Inr st2 \<and> set (owned st2) = {1} \<and>
      ref (span st2 1) = 4 \<and> length (flist G0 st2 1) = 0 \<and> nfree (central st2) = 0" ..
  with initialized_W0 g run_W0_all w(1) show ?thesis by blast
qed

text \<open>
  The state \<^verbatim>\<open>MCentral_Grow\<close> leaves is not one a client sees: the new span has no
  allocated object yet. A round trip from it would release the span with the last
  object it gets back.
\<close>

lemma roundtrip_inside_AllocList:
  "MCentral_Grow G0 W0 = Inr (True, Wg) \<and> \<not> live_spans Wg \<and>
   pool_inv G0 Wg \<and> counter_ok G0 Wg \<and> list_inv Wg \<and>
   pool_after (Inr Wg) = Some ([1], 4) \<and>
   pool_after (roundtrip G0 Wg 1) = Some ([], 0)"
proof -
  have "pool_after (Inr Wg) = Some ([1], 4)"
    by (simp add: pool_after_def owned_def Wg_def)
  moreover have "\<not> live_spans Wg" by (simp add: live_spans_def owned_def Wg_def)
  ultimately show ?thesis
    using Grow_W0 pool_inv_Wg counter_ok_Wg list_inv_Wg roundtrip_Wg by simp
qed

end
